theory Spec2Isabelle
  imports Complex_Main "HOL-Library.Word"
begin

unbundle bit_operations_syntax

section \<open>mspkit: MSP framing (core.py) and waypoint missions (mission.py)\<close>

text \<open>
  Conventions of the embedding.
  \<^item> A Python \<open>bytes\<close> value is a list of 8-bit words; a Python \<open>int\<close> is an \<open>int\<close>.
  \<^item> A raised exception is the \<open>Inl\<close> branch of a sum; the state a call leaves behind is
    returned next to its value.
  \<^item> Python \<open>float\<close> values (latitude, longitude, altitude) are idealised as rationals:
    arithmetic on them is exact, and neither rounding, NaN nor infinities are modelled.
\<close>

type_synonym byte = "8 word"

datatype error =
    NotConnected      \<comment> \<open>\<open>MSPException("Not connected")\<close>\<close>
  | PayloadTooLarge   \<comment> \<open>\<open>MSPException("MSP v1/v2 payload too large ...")\<close>\<close>
  | WriteFailed       \<comment> \<open>\<open>MSPException("Failed to send MSP command ...")\<close>\<close>
  | ReadFailed        \<comment> \<open>\<open>MSPException("Failed to read MSP response ...")\<close>\<close>
  | StructError       \<comment> \<open>\<open>struct.error\<close>\<close>
  | ValueError        \<comment> \<open>\<open>ValueError\<close> of \<open>bytes([...])\<close>\<close>
  | TypeError         \<comment> \<open>\<open>TypeError\<close> of \<open>ord(b'')\<close>\<close>
  | SerialException   \<comment> \<open>\<open>serial.SerialException\<close> of \<open>ser.read\<close>\<close>
  | AttributeError    \<comment> \<open>\<open>AttributeError\<close> of \<open>self.ser.read\<close> when \<open>self.ser\<close> is \<open>None\<close>\<close>
  | KeyError          \<comment> \<open>\<open>KeyError\<close> of \<open>data['lat']\<close>\<close>

subsection \<open>The serial port\<close>

text \<open>
  What the port will deliver is a list of events: a byte, a gap (the read timeout of the
  port elapses before the next byte arrives, so a pending \<open>read\<close> returns what it has), or a
  fault (the \<open>read\<close> raises \<open>serial.SerialException\<close>).  After the last event the line stays
  silent.  \<open>write_fault\<close> says that \<open>write\<close> raises \<open>serial.SerialException\<close>.
\<close>

datatype event = Byte byte | Gap | Fault

record serial =
  written :: "byte list"
  incoming :: "event list"
  write_fault :: bool

record connection_manager =
  ser :: "serial option"
  msp_v2_supported :: bool

definition MSP_V1_HEADER :: "byte list" where "MSP_V1_HEADER = [0x24, 0x4D, 0x3C]"
definition MSP_V2_HEADER :: "byte list" where "MSP_V2_HEADER = [0x24, 0x58, 0x3C]"
definition MSP_V1_RESPONSE :: "byte list" where "MSP_V1_RESPONSE = [0x24, 0x4D, 0x3E]"
definition MSP_V2_RESPONSE :: "byte list" where "MSP_V2_RESPONSE = [0x24, 0x58, 0x3E]"
definition MSP_ERROR :: "byte list" where "MSP_ERROR = [0x24, 0x4D, 0x21]"

subsection \<open>Python helpers: \<open>bytes([...])\<close> and \<open>struct.pack\<close>\<close>

text \<open>\<open>bytes([k, ...])\<close> raises \<open>ValueError\<close> unless every element is in \<open>range(256)\<close>.\<close>

fun bytes_of :: "int list \<Rightarrow> error + byte list" where
  "bytes_of [] = Inr []"
| "bytes_of (k # ks) =
     (if 0 \<le> k \<and> k < 256
      then (case bytes_of ks of Inl e \<Rightarrow> Inl e | Inr bs \<Rightarrow> Inr (word_of_int k # bs))
      else Inl ValueError)"

text \<open>The \<open>n\<close> little-endian bytes of a non-negative integer below \<open>256 ^ n\<close>.\<close>

fun le_bytes :: "nat \<Rightarrow> int \<Rightarrow> byte list" where
  "le_bytes 0 k = []"
| "le_bytes (Suc n) k = word_of_int (k mod 256) # le_bytes n (k div 256)"

text \<open>\<open>struct.pack\<close> of one unsigned field of \<open>n\<close> bytes (\<open>B\<close>: 1, \<open>H\<close>: 2), little-endian.\<close>

definition pack_unsigned :: "nat \<Rightarrow> int \<Rightarrow> error + byte list" where
  "pack_unsigned n k = (if 0 \<le> k \<and> k < 256 ^ n then Inr (le_bytes n k) else Inl StructError)"

text \<open>\<open>struct.pack\<close> of one signed field of \<open>n\<close> bytes (\<open>h\<close>: 2, \<open>i\<close>: 4), two's complement.\<close>

definition pack_signed :: "nat \<Rightarrow> int \<Rightarrow> error + byte list" where
  "pack_signed n k =
     (if - (256 ^ n div 2) \<le> k \<and> k < 256 ^ n div 2 then Inr (le_bytes n (k mod 256 ^ n))
      else Inl StructError)"

text \<open>The fields of a format string, packed one after the other.\<close>

fun pack_all :: "(error + byte list) list \<Rightarrow> error + byte list" where
  "pack_all [] = Inr []"
| "pack_all (f # fs) =
     (case f of Inl e \<Rightarrow> Inl e
      | Inr bs \<Rightarrow> (case pack_all fs of Inl e \<Rightarrow> Inl e | Inr rest \<Rightarrow> Inr (bs @ rest)))"

text \<open>\<open>struct.unpack\<close> of one little-endian field: unsigned, and signed.\<close>

fun le_uint :: "byte list \<Rightarrow> int" where
  "le_uint [] = 0"
| "le_uint (b # bs) = uint b + 256 * le_uint bs"

definition le_sint :: "byte list \<Rightarrow> int" where
  "le_sint bs =
     (let u = le_uint bs; m = 256 ^ length bs
      in if m div 2 \<le> u then u - m else u)"

subsection \<open>Integrity values (\<open>_calculate_checksum_v1\<close>, \<open>_calculate_crc_v2\<close>)\<close>

text \<open>
  \<^verbatim>\<open>chk = size ^ code;  for b in data: chk ^= b;  return chk\<close>
\<close>

definition calculate_checksum_v1 :: "int \<Rightarrow> int \<Rightarrow> byte list \<Rightarrow> int" where
  "calculate_checksum_v1 sz code data = foldl (\<lambda>chk b. chk XOR uint b) (sz XOR code) data"

text \<open>
  One pass of the inner loop of \<open>_calculate_crc_v2\<close>:
  \<^verbatim>\<open>if crc & 0x80: crc = (crc << 1) ^ 0xD5  else: crc <<= 1;  crc &= 0xFF\<close>
\<close>

definition crc_shift :: "int \<Rightarrow> int" where
  "crc_shift crc =
     (if crc AND 0x80 \<noteq> 0 then (push_bit 1 crc XOR 0xD5) AND 0xFF
      else push_bit 1 crc AND 0xFF)"

text \<open>One pass of the outer loop: \<open>crc ^= byte\<close>, then the inner loop eight times.\<close>

definition crc_byte :: "int \<Rightarrow> byte \<Rightarrow> int" where
  "crc_byte crc b = (crc_shift ^^ 8) (crc XOR uint b)"

definition calculate_crc_v2 :: "byte list \<Rightarrow> int" where
  "calculate_crc_v2 data = foldl crc_byte 0 data"

subsection \<open>Sending (\<open>send_msp_v1\<close>, \<open>send_msp_v2\<close>, \<open>send_msp\<close>)\<close>

definition ser_write :: "connection_manager \<Rightarrow> serial \<Rightarrow> byte list \<Rightarrow> error + connection_manager" where
  "ser_write cm s packet =
     (if write_fault s then Inl WriteFailed
      else Inr (cm\<lparr>ser := Some (s\<lparr>written := written s @ packet\<rparr>)\<rparr>))"

definition send_msp_v1 :: "connection_manager \<Rightarrow> int \<Rightarrow> byte list \<Rightarrow> error + connection_manager" where
  "send_msp_v1 cm code data =
     (case ser cm of
        None \<Rightarrow> Inl NotConnected
      | Some s \<Rightarrow>
          let sz = int (length data) in
          if sz > 255 then Inl PayloadTooLarge
          else
            let chk = calculate_checksum_v1 sz code data in
            (case pack_all [Inr MSP_V1_HEADER, bytes_of [sz, code], Inr data, bytes_of [chk]] of
               Inl e \<Rightarrow> Inl e
             | Inr packet \<Rightarrow> ser_write cm s packet))"

definition send_msp_v2 :: "connection_manager \<Rightarrow> int \<Rightarrow> byte list \<Rightarrow> error + connection_manager" where
  "send_msp_v2 cm code data =
     (case ser cm of
        None \<Rightarrow> Inl NotConnected
      | Some s \<Rightarrow>
          let sz = int (length data) in
          if sz > 65535 then Inl PayloadTooLarge
          else
            let flag = 0 in
            (case pack_all [pack_unsigned 1 flag, pack_unsigned 2 code, pack_unsigned 2 sz,
                            Inr data] of
               Inl e \<Rightarrow> Inl e
             | Inr header_payload \<Rightarrow>
                 let crc = calculate_crc_v2 header_payload in
                 (case pack_all [Inr MSP_V2_HEADER, Inr header_payload, bytes_of [crc]] of
                    Inl e \<Rightarrow> Inl e
                  | Inr packet \<Rightarrow> ser_write cm s packet)))"

definition send_msp :: "connection_manager \<Rightarrow> int \<Rightarrow> byte list \<Rightarrow> bool \<Rightarrow> error + connection_manager" where
  "send_msp cm code data force_v1 =
     (if msp_v2_supported cm \<and> \<not> force_v1 \<and> length data \<le> 65535
      then send_msp_v2 cm code data
      else send_msp_v1 cm code data)"

subsection \<open>Receiving (\<open>read_response\<close>, \<open>_read_v1_response\<close>, \<open>_read_v2_response\<close>)\<close>

text \<open>
  The receive path runs in a state-and-exception monad: a computation takes the state and
  returns a value or a raised exception, next to the state it leaves behind.
\<close>

type_synonym ('s, 'a) run = "'s \<Rightarrow> (error + 'a) \<times> 's"

definition ret :: "'a \<Rightarrow> ('s, 'a) run" where
  "ret a s = (Inr a, s)"

definition lift :: "error + 'a \<Rightarrow> ('s, 'a) run" where
  "lift x s = (x, s)"

definition seq :: "('s, 'a) run \<Rightarrow> ('a \<Rightarrow> ('s, 'b) run) \<Rightarrow> ('s, 'b) run" where
  "seq m f s = (case m s of (Inl e, s') \<Rightarrow> (Inl e, s') | (Inr a, s') \<Rightarrow> f a s')"

text \<open>
  \<open>ser.read(n)\<close> on the event list: it returns \<open>n\<close> bytes, or fewer when a gap comes first
  or the line has gone silent, and raises on a fault.
\<close>

fun take_bytes :: "nat \<Rightarrow> event list \<Rightarrow> (error + byte list) \<times> event list" where
  "take_bytes 0 evs = (Inr [], evs)"
| "take_bytes (Suc n) [] = (Inr [], [])"
| "take_bytes (Suc n) (Gap # evs) = (Inr [], evs)"
| "take_bytes (Suc n) (Fault # evs) = (Inl SerialException, evs)"
| "take_bytes (Suc n) (Byte b # evs) =
     (case take_bytes n evs of
        (Inl e, evs') \<Rightarrow> (Inl e, evs')
      | (Inr bs, evs') \<Rightarrow> (Inr (b # bs), evs'))"

text \<open>\<open>self.ser.read(n)\<close>.\<close>

definition ser_read :: "nat \<Rightarrow> (connection_manager, byte list) run" where
  "ser_read n cm =
     (case ser cm of
        None \<Rightarrow> (Inl AttributeError, cm)
      | Some s \<Rightarrow>
          (case take_bytes n (incoming s) of
             (r, evs') \<Rightarrow> (r, cm\<lparr>ser := Some (s\<lparr>incoming := evs'\<rparr>)\<rparr>)))"

text \<open>\<open>ord(b)\<close> of a \<open>bytes\<close> value: its one byte, \<open>TypeError\<close> for any other length.\<close>

fun ord :: "byte list \<Rightarrow> error + int" where
  "ord [b] = Inr (uint b)"
| "ord bs = Inl TypeError"

text \<open>\<open>struct.unpack('<HH', b)\<close>: \<open>struct.error\<close> unless \<open>b\<close> has four bytes.\<close>

definition unpack_HH :: "byte list \<Rightarrow> error + (int \<times> int)" where
  "unpack_HH bs =
     (if length bs = 4 then Inr (le_uint (take 2 bs), le_uint (drop 2 bs)) else Inl StructError)"

type_synonym response = "int option \<times> byte list option"

text \<open>
  The \<open>try\<close> block of a response reader with its handler
  \<open>except (struct.error, TypeError): return None, None\<close>; any other exception goes on up.
\<close>

definition parse_guard :: "(connection_manager, response) run \<Rightarrow> (connection_manager, response) run" where
  "parse_guard body cm =
     (case body cm of
        (Inl e, cm') \<Rightarrow>
          (if e = StructError \<or> e = TypeError then (Inr (None, None), cm') else (Inl e, cm'))
      | (Inr r, cm') \<Rightarrow> (Inr r, cm'))"

definition read_v1_response :: "(connection_manager, response) run" where
  "read_v1_response cm =
     (if ser cm = None then (Inr (None, None), cm)
      else parse_guard
        (seq (ser_read 1) (\<lambda>b1. seq (lift (ord b1)) (\<lambda>sz.
         seq (ser_read 1) (\<lambda>b2. seq (lift (ord b2)) (\<lambda>code.
         seq (ser_read (nat sz)) (\<lambda>data.
         seq (ser_read 1) (\<lambda>b3. seq (lift (ord b3)) (\<lambda>chk.
           let expected_chk = calculate_checksum_v1 sz code data in
           if chk \<noteq> expected_chk then ret (None, None)
           else ret (Some code, Some data))))))))) cm)"

definition read_v2_response :: "(connection_manager, response) run" where
  "read_v2_response cm =
     (if ser cm = None then (Inr (None, None), cm)
      else parse_guard
        (seq (ser_read 1) (\<lambda>b1. seq (lift (ord b1)) (\<lambda>flag.
         seq (ser_read 4) (\<lambda>b4. seq (lift (unpack_HH b4)) (\<lambda>(code, sz).
         seq (ser_read (nat sz)) (\<lambda>data.
         seq (ser_read 1) (\<lambda>b5. seq (lift (ord b5)) (\<lambda>crc.
         seq (lift (pack_all [bytes_of [flag], pack_unsigned 2 code, pack_unsigned 2 sz,
                              Inr data])) (\<lambda>header_payload.
           let expected_crc = calculate_crc_v2 header_payload in
           if crc \<noteq> expected_crc then ret (None, None)
           else ret (Some code, Some data)))))))))) cm)"

text \<open>
  The \<open>while\<close> loop of \<open>read_response\<close>.  Its guard compares the wall clock with the deadline;
  the first argument is the number of times the guard still holds before the deadline has
  passed.  When it no longer holds the loop is left and \<open>None, None\<close> is returned
  (``MSP response timeout'').
\<close>

fun read_loop :: "nat \<Rightarrow> (connection_manager, response) run" where
  "read_loop 0 cm = (Inr (None, None), cm)"
| "read_loop (Suc d) cm =
     (case ser_read 1 cm of
        (Inl e, cm1) \<Rightarrow> (Inl e, cm1)
      | (Inr byte, cm1) \<Rightarrow>
          if byte = [] then read_loop d cm1
          else if byte = [0x24] then
            (case ser_read 2 cm1 of
               (Inl e, cm2) \<Rightarrow> (Inl e, cm2)
             | (Inr rest, cm2) \<Rightarrow>
                 let header = 0x24 # rest in
                 if header = MSP_V1_RESPONSE then read_v1_response cm2
                 else if header = MSP_V2_RESPONSE then read_v2_response cm2
                 else if header = MSP_ERROR then (Inr (None, None), cm2)
                 else read_loop d cm2)
          else read_loop d cm1)"

text \<open>
  \<open>read_response\<close>: not connected raises; a \<open>serial.SerialException\<close> of the loop is raised
  again as \<open>MSPException("Failed to read MSP response ...")\<close>.
\<close>

definition read_response :: "nat \<Rightarrow> (connection_manager, response) run" where
  "read_response d cm =
     (if ser cm = None then (Inl NotConnected, cm)
      else
        (case read_loop d cm of
           (Inl e, cm') \<Rightarrow> (if e = SerialException then (Inl ReadFailed, cm') else (Inl e, cm'))
         | (Inr r, cm') \<Rightarrow> (Inr r, cm')))"

subsection \<open>Notions used to state properties of the receive path\<close>

text \<open>A connection whose port never raises on \<open>read\<close>.\<close>

definition quiet :: "connection_manager \<Rightarrow> bool" where
  "quiet cm = (case ser cm of None \<Rightarrow> False | Some s \<Rightarrow> Fault \<notin> set (incoming s))"

text \<open>The connection \<open>cm\<close> with port \<open>s\<close>, about to receive the events \<open>evs\<close>.\<close>

definition receiving :: "connection_manager \<Rightarrow> serial \<Rightarrow> event list \<Rightarrow> connection_manager" where
  "receiving cm s evs = cm\<lparr>ser := Some (s\<lparr>incoming := evs\<rparr>)\<rparr>"

text \<open>
  A computation started in a state with \<open>P\<close> ends with a value and state in \<open>Q\<close>, or with
  an exception and state in \<open>E\<close>.
\<close>

definition triple ::
  "('s \<Rightarrow> bool) \<Rightarrow> ('s, 'a) run \<Rightarrow> ('a \<Rightarrow> 's \<Rightarrow> bool) \<Rightarrow> (error \<Rightarrow> 's \<Rightarrow> bool) \<Rightarrow> bool" where
  "triple P m Q E =
     (\<forall>s. P s \<longrightarrow> (case m s of (Inl e, s') \<Rightarrow> E e s' | (Inr a, s') \<Rightarrow> Q a s'))"

text \<open>
  An event that the header scan of \<open>read_response\<close> passes over in one turn of its loop: a
  gap, or a byte other than \<open>$\<close>.
\<close>

fun noise :: "event \<Rightarrow> bool" where
  "noise (Byte b) = (b \<noteq> 0x24)"
| "noise Gap = True"
| "noise Fault = False"

text \<open>A response is empty, or has both a code and a payload.\<close>

definition well_shaped :: "response \<Rightarrow> bool" where
  "well_shaped r = (r = (None, None) \<or> (\<exists>code data. r = (Some code, Some data)))"

subsection \<open>The integrity values as the specification words them\<close>

text \<open>
  The XOR fold of the payload bytes, and the CRC-8/DVB-S2 construction on 8-bit values: XOR
  the byte into the running value, then eight times shift left (the top bit falls off) and
  XOR with \<open>0xD5\<close> if the top bit was set.
\<close>

definition fold_xor :: "byte list \<Rightarrow> byte" where
  "fold_xor data = foldl (XOR) 0 data"

definition crc8_shift_spec :: "byte \<Rightarrow> byte" where
  "crc8_shift_spec c = (if bit c 7 then push_bit 1 c XOR 0xD5 else push_bit 1 c)"

definition crc8_dvb_s2_spec :: "byte list \<Rightarrow> byte" where
  "crc8_dvb_s2_spec data = foldl (\<lambda>c b. (crc8_shift_spec ^^ 8) (c XOR b)) 0 data"

text \<open>An unsigned 16-bit value as two bytes, low byte first.\<close>

definition u16_le :: "int \<Rightarrow> byte list" where
  "u16_le k = [word_of_int (k AND 0xFF), word_of_int (drop_bit 8 k)]"

subsection \<open>Response frames on the line\<close>

text \<open>The events that a connection has still to receive.\<close>

definition line :: "connection_manager \<Rightarrow> event list" where
  "line cm = (case ser cm of None \<Rightarrow> [] | Some s \<Rightarrow> incoming s)"

text \<open>
  A V1 response frame after its header, as the receiver sees it: the size byte, the code
  byte, the payload bytes that a read of \<open>size\<close> bytes gives (fewer when a gap comes first),
  and then one checksum byte that equals size XOR code XOR the XOR fold of the payload read.
  The result is the code, the payload, and what follows the frame.
\<close>

fun v1_frame :: "event list \<Rightarrow> (int \<times> byte list \<times> event list) option" where
  "v1_frame (Byte sz # Byte c # mid) =
     (case take_bytes (unat sz) mid of
        (Inr data, Byte chk # rest) \<Rightarrow>
          if chk = sz XOR c XOR fold_xor data then Some (uint c, data, rest) else None
      | _ \<Rightarrow> None)"
| "v1_frame evs = None"

text \<open>
  A V2 response frame after its header: the flag byte, code and size as two bytes each, low
  byte first, the payload bytes read, and then one byte that equals the CRC-8/DVB-S2 value of
  flag, code, size and the payload read.
\<close>

fun v2_frame :: "event list \<Rightarrow> (int \<times> byte list \<times> event list) option" where
  "v2_frame (Byte flg # Byte clo # Byte chi # Byte slo # Byte shi # mid) =
     (case take_bytes (nat (le_uint [slo, shi])) mid of
        (Inr data, Byte crc # rest) \<Rightarrow>
          if crc = crc8_dvb_s2_spec ([flg, clo, chi, slo, shi] @ data)
          then Some (le_uint [clo, chi], data, rest) else None
      | _ \<Rightarrow> None)"
| "v2_frame evs = None"

text \<open>A response frame at the head of the line, with its header \<open>$M>\<close> or \<open>$X>\<close>.\<close>

fun response_frame :: "event list \<Rightarrow> (int \<times> byte list \<times> event list) option" where
  "response_frame (Byte h1 # Byte h2 # Byte h3 # evs) =
     (if [h1, h2, h3] = MSP_V1_RESPONSE then v1_frame evs
      else if [h1, h2, h3] = MSP_V2_RESPONSE then v2_frame evs
      else None)"
| "response_frame evs = None"

text \<open>A response frame somewhere on the line.\<close>

fun frame_on_line :: "event list \<Rightarrow> int \<times> byte list \<times> event list \<Rightarrow> bool" where
  "frame_on_line [] f = False"
| "frame_on_line (e # evs) f = (response_frame (e # evs) = Some f \<or> frame_on_line evs f)"

section \<open>Waypoint missions (mission.py)\<close>

subsection \<open>Waypoints and missions\<close>

record waypoint =
  lat :: rat
  lon :: rat
  alt :: rat
  action :: int
  param1 :: int
  param2 :: int
  param3 :: int
  flag :: int

text \<open>
  The \<open>Mission\<close> object, without its reference to the connection: the connection is shared
  with the caller and is passed to each operation and returned by it.
\<close>

record mission =
  waypoints :: "waypoint list"
  mission_loaded :: bool

definition MAX_WAYPOINTS :: int where "MAX_WAYPOINTS = 60"
definition MSP_WP :: int where "MSP_WP = 118"
definition MSP_SET_WP :: int where "MSP_SET_WP = 209"

subsection \<open>The connection as the mission uses it\<close>

text \<open>
  A \<open>Mission\<close> calls two methods of its connection: \<open>send_msp(code, data)\<close> and
  \<open>read_response()\<close>.  The connection is any object with these two methods; here it is the
  list of the messages sent so far, together with what the other side does: whether a
  send raises, and what \<open>read_response\<close> gives, each as a function of the messages sent up
  to then.  \<open>time.sleep\<close> is not modelled.
\<close>

type_synonym message = "int \<times> byte list"

datatype reply = Raises | Reply "int option" "byte list option"

record conn =
  sent :: "message list"
  send_raises :: "message list \<Rightarrow> bool"
  respond :: "message list \<Rightarrow> reply"

definition conn_send_msp :: "int \<Rightarrow> byte list \<Rightarrow> (conn, unit) run" where
  "conn_send_msp code data c =
     (if send_raises c (sent c @ [(code, data)]) then (Inl WriteFailed, c)
      else (Inr (), c\<lparr>sent := sent c @ [(code, data)]\<rparr>))"

definition conn_read_response :: "(conn, response) run" where
  "conn_read_response c =
     (case respond c (sent c) of
        Raises \<Rightarrow> (Inl ReadFailed, c)
      | Reply code data \<Rightarrow> (Inr (code, data), c))"

subsection \<open>\<open>validate_coordinates\<close>, \<open>get_waypoint\<close>, \<open>set_waypoint\<close>\<close>

definition validate_coordinates :: "rat \<Rightarrow> rat \<Rightarrow> rat \<Rightarrow> bool" where
  "validate_coordinates la lo al =
     (if \<not> (-90 \<le> la \<and> la \<le> 90) then False
      else if \<not> (-180 \<le> lo \<and> lo \<le> 180) then False
      else if \<not> (-1000 \<le> al \<and> al \<le> 10000) then False
      else True)"

text \<open>Python's \<open>int(x)\<close> of a number: truncation towards zero.\<close>

definition py_int :: "rat \<Rightarrow> int" where
  "py_int x = (if 0 \<le> x then \<lfloor>x\<rfloor> else \<lceil>x\<rceil>)"

text \<open>
  The body of \<open>if code == MSPCommands.MSP_WP and response_data:\<close> in \<open>get_waypoint\<close>, with
  \<open>struct.unpack('<BBiiihhhB', response_data[:21])\<close> for the extended format and
  \<open>struct.unpack('<iii', response_data[0:12])\<close> for the basic one.
\<close>

definition waypoint_of_response :: "int \<Rightarrow> byte list \<Rightarrow> waypoint option" where
  "waypoint_of_response wp_id response_data =
     (if length response_data \<ge> 21 then
        (let wp_id_resp = le_uint (take 1 response_data);
             act = le_uint (take 1 (drop 1 response_data));
             la = le_sint (take 4 (drop 2 response_data));
             lo = le_sint (take 4 (drop 6 response_data));
             al = le_sint (take 4 (drop 10 response_data));
             p1 = le_sint (take 2 (drop 14 response_data));
             p2 = le_sint (take 2 (drop 16 response_data));
             p3 = le_sint (take 2 (drop 18 response_data));
             fl = le_uint (take 1 (drop 20 response_data))
         in if wp_id_resp = wp_id
            then Some \<lparr>lat = of_int la / 10000000, lon = of_int lo / 10000000,
                       alt = of_int al / 100, action = act,
                       param1 = p1, param2 = p2, param3 = p3, flag = fl\<rparr>
            else None)
      else if length response_data \<ge> 12 then
        (let la = le_sint (take 4 response_data);
             lo = le_sint (take 4 (drop 4 response_data));
             al = le_sint (take 4 (drop 8 response_data))
         in Some \<lparr>lat = of_int la / 10000000, lon = of_int lo / 10000000,
                   alt = of_int al / 100, action = 1,
                   param1 = 0, param2 = 0, param3 = 0, flag = 0\<rparr>)
      else None)"

text \<open>Every exception inside the \<open>try\<close> block is caught and gives \<open>None\<close>.\<close>

definition get_waypoint :: "int \<Rightarrow> conn \<Rightarrow> waypoint option \<times> conn" where
  "get_waypoint wp_id c =
     (if wp_id < 0 \<or> wp_id \<ge> MAX_WAYPOINTS then (None, c)
      else
        (case pack_unsigned 1 wp_id of
           Inl e \<Rightarrow> (None, c)
         | Inr data \<Rightarrow>
             (case conn_send_msp MSP_WP data c of
                (Inl e, c1) \<Rightarrow> (None, c1)
              | (Inr u, c1) \<Rightarrow>
                  (case conn_read_response c1 of
                     (Inl e, c2) \<Rightarrow> (None, c2)
                   | (Inr (code, response_data), c2) \<Rightarrow>
                       (if code = Some MSP_WP \<and> response_data \<noteq> None \<and> response_data \<noteq> Some []
                        then (waypoint_of_response wp_id (the response_data), c2)
                        else (None, c2))))))"

text \<open>
  \<open>struct.pack('<BBiiihhhB', ...)\<close> of \<open>set_waypoint\<close>; a field out of range raises
  \<open>struct.error\<close>.
\<close>

definition pack_waypoint :: "int \<Rightarrow> waypoint \<Rightarrow> error + byte list" where
  "pack_waypoint wp_id wp =
     pack_all [pack_unsigned 1 wp_id, pack_unsigned 1 (action wp),
               pack_signed 4 (py_int (lat wp * 10000000)),
               pack_signed 4 (py_int (lon wp * 10000000)),
               pack_signed 4 (py_int (alt wp * 100)),
               pack_signed 2 (param1 wp), pack_signed 2 (param2 wp), pack_signed 2 (param3 wp),
               pack_unsigned 1 (flag wp)]"

text \<open>The comparison of the read-back with the intended waypoint.\<close>

definition verification_failed :: "waypoint \<Rightarrow> waypoint \<Rightarrow> bool" where
  "verification_failed verification wp =
     (let lat_diff = \<bar>lat verification - lat wp\<bar>;
          lon_diff = \<bar>lon verification - lon wp\<bar>;
          alt_diff = \<bar>alt verification - alt wp\<bar>
      in lat_diff > 1 / 1000000 \<or> lon_diff > 1 / 1000000 \<or> alt_diff > 1 / 10)"

definition set_waypoint :: "int \<Rightarrow> waypoint \<Rightarrow> bool \<Rightarrow> conn \<Rightarrow> bool \<times> conn" where
  "set_waypoint wp_id wp validate c =
     (if wp_id < 0 \<or> wp_id \<ge> MAX_WAYPOINTS then (False, c)
      else if validate \<and> \<not> validate_coordinates (lat wp) (lon wp) (alt wp) then (False, c)
      else
        (case pack_waypoint wp_id wp of
           Inl e \<Rightarrow> (False, c)
         | Inr data \<Rightarrow>
             (case conn_send_msp MSP_SET_WP data c of
                (Inl e, c1) \<Rightarrow> (False, c1)
              | (Inr u, c1) \<Rightarrow>
                  if validate then
                    (case get_waypoint wp_id c1 of
                       (Some verification, c2) \<Rightarrow>
                         if verification_failed verification wp then (False, c2) else (True, c2)
                     | (None, c2) \<Rightarrow> (True, c2))
                  else (True, c1))))"

subsection \<open>Local edits\<close>

definition add_waypoint ::
  "rat \<Rightarrow> rat \<Rightarrow> rat \<Rightarrow> int \<Rightarrow> int \<Rightarrow> int \<Rightarrow> int \<Rightarrow> int \<Rightarrow> mission \<Rightarrow> bool \<times> mission" where
  "add_waypoint la lo al act p1 p2 p3 fl m =
     (if int (length (waypoints m)) \<ge> MAX_WAYPOINTS then (False, m)
      else if \<not> validate_coordinates la lo al then (False, m)
      else (True, m\<lparr>waypoints := waypoints m @
              [\<lparr>lat = la, lon = lo, alt = al, action = act,
                param1 = p1, param2 = p2, param3 = p3, flag = fl\<rparr>]\<rparr>))"

definition insert_waypoint ::
  "int \<Rightarrow> rat \<Rightarrow> rat \<Rightarrow> rat \<Rightarrow> int \<Rightarrow> int \<Rightarrow> int \<Rightarrow> int \<Rightarrow> int \<Rightarrow> mission \<Rightarrow> bool \<times> mission" where
  "insert_waypoint index la lo al act p1 p2 p3 fl m =
     (if index < 0 \<or> index > int (length (waypoints m)) then (False, m)
      else if int (length (waypoints m)) \<ge> MAX_WAYPOINTS then (False, m)
      else if \<not> validate_coordinates la lo al then (False, m)
      else (True, m\<lparr>waypoints := take (nat index) (waypoints m) @
              [\<lparr>lat = la, lon = lo, alt = al, action = act,
                param1 = p1, param2 = p2, param3 = p3, flag = fl\<rparr>] @
              drop (nat index) (waypoints m)\<rparr>))"

definition remove_waypoint :: "int \<Rightarrow> mission \<Rightarrow> bool \<times> mission" where
  "remove_waypoint index m =
     (if index < 0 \<or> index \<ge> int (length (waypoints m)) then (False, m)
      else (True, m\<lparr>waypoints := take (nat index) (waypoints m) @
                                     drop (Suc (nat index)) (waypoints m)\<rparr>))"

definition clear_mission :: "mission \<Rightarrow> bool \<times> mission" where
  "clear_mission m = (True, m\<lparr>waypoints := [], mission_loaded := False\<rparr>)"

subsection \<open>\<open>upload_mission\<close> and \<open>download_mission\<close>\<close>

text \<open>
  The \<open>for i, waypoint in enumerate(self.waypoints)\<close> loop: the result is the success count,
  or \<open>None\<close> when the loop is left by \<open>return False\<close>.
\<close>

fun upload_loop :: "bool \<Rightarrow> int \<Rightarrow> waypoint list \<Rightarrow> nat \<Rightarrow> conn \<Rightarrow> nat option \<times> conn" where
  "upload_loop validate i [] success_count c = (Some success_count, c)"
| "upload_loop validate i (wp # wps) success_count c =
     (case set_waypoint i wp validate c of
        (True, c') \<Rightarrow> upload_loop validate (i + 1) wps (success_count + 1) c'
      | (False, c') \<Rightarrow>
          if validate then (None, c')
          else upload_loop validate (i + 1) wps success_count c')"

definition empty_wp :: waypoint where
  "empty_wp = \<lparr>lat = 0, lon = 0, alt = 0, action = 0,
               param1 = 0, param2 = 0, param3 = 0, flag = 0\<rparr>"

text \<open>\<open>for i in range(...): self.set_waypoint(i, empty_wp, validate=False)\<close>.\<close>

fun clear_loop :: "int list \<Rightarrow> conn \<Rightarrow> conn" where
  "clear_loop [] c = c"
| "clear_loop (i # is) c = clear_loop is (snd (set_waypoint i empty_wp False c))"

text \<open>\<open>range(a, b)\<close>.\<close>

definition py_range :: "nat \<Rightarrow> nat \<Rightarrow> int list" where
  "py_range a b = map int [a..<b]"

definition upload_mission :: "bool \<Rightarrow> mission \<Rightarrow> conn \<Rightarrow> bool \<times> mission \<times> conn" where
  "upload_mission validate m c =
     (if waypoints m = [] then (False, m, c)
      else
        let total_waypoints = length (waypoints m) in
        (case upload_loop validate 0 (waypoints m) 0 c of
           (None, c1) \<Rightarrow> (False, m, c1)
         | (Some success_count, c1) \<Rightarrow>
             let c2 = (if int success_count < MAX_WAYPOINTS
                       then clear_loop (py_range success_count
                                          (min (success_count + 5) (nat MAX_WAYPOINTS))) c1
                       else c1)
             in if success_count = total_waypoints
                then (True, m\<lparr>mission_loaded := True\<rparr>, c2)
                else (False, m, c2)))"

text \<open>
  The \<open>for i in range(self.MAX_WAYPOINTS)\<close> loop of \<open>download_mission\<close>, over the indices
  still to come; \<open>break\<close> ends it.
\<close>

fun download_loop :: "int list \<Rightarrow> waypoint list \<Rightarrow> conn \<Rightarrow> waypoint list \<times> conn" where
  "download_loop [] wps c = (wps, c)"
| "download_loop (i # is) wps c =
     (case get_waypoint i c of
        (Some wp, c') \<Rightarrow>
          if lat wp \<noteq> 0 \<or> lon wp \<noteq> 0 then download_loop is (wps @ [wp]) c'
          else (wps, c')
      | (None, c') \<Rightarrow> (wps, c'))"

definition download_mission :: "mission \<Rightarrow> conn \<Rightarrow> bool \<times> mission \<times> conn" where
  "download_mission m c =
     (case download_loop (py_range 0 (nat MAX_WAYPOINTS)) [] c of
        (wps, c') \<Rightarrow> (True, m\<lparr>waypoints := wps, mission_loaded := True\<rparr>, c'))"

subsection \<open>Mission files (\<open>to_dict\<close>, \<open>from_dict\<close>, \<open>get_mission_info\<close>, \<open>save_mission_to_file\<close>, \<open>load_mission_from_file\<close>)\<close>

text \<open>
  A file holds a JSON text.  \<open>json.dump\<close> and \<open>json.load\<close> belong to the Python library and
  are not embedded: a file is modelled by the JSON value it holds, on the assumption that
  \<open>json.load\<close> gives back the value that \<open>json.dump\<close> wrote.  A Python \<open>dict\<close> is an
  association list with distinct keys.
\<close>

datatype json =
    JNull | JBool bool | JInt int | JFloat rat | JString string
  | JArray "json list" | JObject "(string \<times> json) list"

text \<open>
  The file system: what \<open>json.load\<close> gives for a name (\<open>None\<close>: the file cannot be opened
  for reading, or does not hold a JSON text), the names that cannot be opened for writing,
  and the names where a write succeeds and nothing is kept for a later read (a device such as
  \<open>/dev/null\<close>, a file without read permission).
\<close>

record filesystem =
  contents :: "string \<Rightarrow> json option"
  read_only :: "string set"
  not_kept :: "string set"

definition to_dict :: "waypoint \<Rightarrow> json" where
  "to_dict wp =
     JObject [(''lat'', JFloat (lat wp)), (''lon'', JFloat (lon wp)), (''alt'', JFloat (alt wp)),
              (''action'', JInt (action wp)), (''param1'', JInt (param1 wp)),
              (''param2'', JInt (param2 wp)), (''param3'', JInt (param3 wp)),
              (''flag'', JInt (flag wp))]"

text \<open>
  The waypoint fields are typed here: a coordinate is a number, the other fields are
  integers.  \<open>from_dict\<close> itself checks no type and stores whatever value it finds; a JSON
  value of another kind in the place of a field cannot be held by the record.
\<close>

fun as_number :: "json \<Rightarrow> rat option" where
  "as_number (JFloat x) = Some x"
| "as_number (JInt k) = Some (of_int k)"
| "as_number j = None"

fun as_int :: "json \<Rightarrow> int option" where
  "as_int (JInt k) = Some k"
| "as_int j = None"

text \<open>\<open>data.get(key, default)\<close>.\<close>

definition dict_get :: "(string \<times> json) list \<Rightarrow> string \<Rightarrow> json \<Rightarrow> json" where
  "dict_get kvs key dflt = (case map_of kvs key of None \<Rightarrow> dflt | Some v \<Rightarrow> v)"

text \<open>
  \<open>Waypoint.from_dict\<close>.  It raises \<open>KeyError\<close> for a missing coordinate and \<open>TypeError\<close>
  when \<open>data\<close> is not a dictionary.  The result is \<open>None\<close> when all three coordinates are
  there and some field has a value that the typed record cannot hold: the code returns a
  waypoint with that value, which this model does not describe.
\<close>

fun from_dict :: "json \<Rightarrow> (error + waypoint) option" where
  "from_dict (JObject data) =
     (case (map_of data ''lat'', map_of data ''lon'', map_of data ''alt'') of
        (Some la, Some lo, Some al) \<Rightarrow>
          Option.bind (as_number la) (\<lambda>la.
          Option.bind (as_number lo) (\<lambda>lo.
          Option.bind (as_number al) (\<lambda>al.
          Option.bind (as_int (dict_get data ''action'' (JInt 1))) (\<lambda>act.
          Option.bind (as_int (dict_get data ''param1'' (JInt 0))) (\<lambda>p1.
          Option.bind (as_int (dict_get data ''param2'' (JInt 0))) (\<lambda>p2.
          Option.bind (as_int (dict_get data ''param3'' (JInt 0))) (\<lambda>p3.
          Option.bind (as_int (dict_get data ''flag'' (JInt 0))) (\<lambda>fl.
            Some (Inr \<lparr>lat = la, lon = lo, alt = al, action = act,
                       param1 = p1, param2 = p2, param3 = p3, flag = fl\<rparr>)))))))))
      | _ \<Rightarrow> Some (Inl KeyError))"
| "from_dict j = Some (Inl TypeError)"





text \<open>What a \<open>for\<close> loop iterates over; \<open>None\<close> when the value is not iterable.\<close>

fun iter_json :: "json \<Rightarrow> json list option" where
  "iter_json (JArray xs) = Some xs"
| "iter_json (JObject kvs) = Some (map (\<lambda>kv. JString (fst kv)) kvs)"
| "iter_json (JString s) = Some (map (\<lambda>ch. JString [ch]) s)"
| "iter_json j = None"

text \<open>
  The loop of \<open>load_mission_from_file\<close>; an exception leaves it with \<open>False\<close>, the waypoints
  appended so far staying in the mission.  The result is \<open>None\<close> when an entry has a field
  that the typed record cannot hold.
\<close>

fun load_loop :: "json list \<Rightarrow> mission \<Rightarrow> (bool \<times> mission) option" where
  "load_loop [] m = Some (True, m)"
| "load_loop (wp_data # rest) m =
     (case from_dict wp_data of
        None \<Rightarrow> None
      | Some (Inl e) \<Rightarrow> Some (False, m)
      | Some (Inr wp) \<Rightarrow> load_loop rest (m\<lparr>waypoints := waypoints m @ [wp]\<rparr>))"

definition load_mission_from_file ::
  "string \<Rightarrow> mission \<Rightarrow> filesystem \<Rightarrow> (bool \<times> mission) option" where
  "load_mission_from_file filename m fs =
     (case contents fs filename of
        None \<Rightarrow> Some (False, m)
      | Some mission_data \<Rightarrow>
          let m1 = snd (clear_mission m) in
          (case mission_data of
             JObject kvs \<Rightarrow>
               (case iter_json (dict_get kvs ''waypoints'' (JArray [])) of
                  None \<Rightarrow> Some (False, m1)
                | Some items \<Rightarrow> load_loop items m1)
           | _ \<Rightarrow> Some (False, m1)))"

subsection \<open>Notions used to state properties of missions\<close>

text \<open>The request that \<open>get_waypoint\<close> sends for slot \<open>i\<close>.\<close>

definition wp_request :: "int \<Rightarrow> message" where
  "wp_request i = (MSP_WP, le_bytes 1 i)"

text \<open>The connection after the slots \<open>a, ..., a + j - 1\<close> have been requested.\<close>

definition after_requests :: "conn \<Rightarrow> nat \<Rightarrow> nat \<Rightarrow> conn" where
  "after_requests c a j = c\<lparr>sent := sent c @ map (\<lambda>k. wp_request (int k)) [a..<a + j]\<rparr>"

text \<open>
  What reading slot \<open>j\<close> gives when the slots before it have been read in order, starting
  from \<open>c\<close>.
\<close>

definition slot :: "conn \<Rightarrow> nat \<Rightarrow> waypoint option" where
  "slot c j = fst (get_waypoint (int j) (after_requests c 0 j))"

text \<open>The slot indices of the waypoint writes among some messages, in the order sent.\<close>

definition set_wp_indices :: "message list \<Rightarrow> int list" where
  "set_wp_indices msgs =
     map (\<lambda>msg. le_uint (take 1 (snd msg))) (filter (\<lambda>msg. fst msg = MSP_SET_WP) msgs)"

text \<open>
  The waypoint that the 21-byte record holds for \<open>wp\<close>: the coordinates in the fixed-point
  resolution of the wire (degrees times \<open>1e7\<close>, metres times 100, truncated).
\<close>

definition on_wire :: "waypoint \<Rightarrow> waypoint" where
  "on_wire wp = \<lparr>lat = of_int (py_int (lat wp * 10000000)) / 10000000,
                  lon = of_int (py_int (lon wp * 10000000)) / 10000000,
                  alt = of_int (py_int (alt wp * 100)) / 100,
                  action = action wp, param1 = param1 wp, param2 = param2 wp,
                  param3 = param3 wp, flag = flag wp\<rparr>"

text \<open>The fields of \<open>wp\<close> are in the ranges of the record's format \<open><BBiiihhhB\<close>.\<close>

definition fits_wire :: "waypoint \<Rightarrow> bool" where
  "fits_wire wp =
     (0 \<le> action wp \<and> action wp < 256
      \<and> - 2147483648 \<le> py_int (lat wp * 10000000) \<and> py_int (lat wp * 10000000) < 2147483648
      \<and> - 2147483648 \<le> py_int (lon wp * 10000000) \<and> py_int (lon wp * 10000000) < 2147483648
      \<and> - 2147483648 \<le> py_int (alt wp * 100) \<and> py_int (alt wp * 100) < 2147483648
      \<and> - 32768 \<le> param1 wp \<and> param1 wp < 32768
      \<and> - 32768 \<le> param2 wp \<and> param2 wp < 32768
      \<and> - 32768 \<le> param3 wp \<and> param3 wp < 32768
      \<and> 0 \<le> flag wp \<and> flag wp < 256)"

subsection \<open>A mocked transport\<close>

text \<open>
  A device with a waypoint store that never fails a send and answers a read request for
  slot \<open>i\<close> with the extended waypoint record of \<open>store i\<close>, or with no valid response when
  the store has none for \<open>i\<close>; a write request is not answered.  It serves for the examples.
\<close>

definition mock_respond :: "(int \<Rightarrow> waypoint option) \<Rightarrow> message list \<Rightarrow> reply" where
  "mock_respond store h =
     (if h = [] then Reply None None
      else
        let code = fst (last h); i = le_uint (snd (last h)) in
        if code = MSP_WP then
          (case store i of
             None \<Rightarrow> Reply None None
           | Some wp \<Rightarrow>
               (case pack_waypoint i wp of
                  Inl e \<Rightarrow> Reply None None
                | Inr record \<Rightarrow> Reply (Some MSP_WP) (Some record)))
        else Reply None None)"

definition mock_conn :: "(int \<Rightarrow> waypoint option) \<Rightarrow> conn" where
  "mock_conn store = \<lparr>sent = [], send_raises = (\<lambda>h. False), respond = mock_respond store\<rparr>"

text \<open>A waypoint for the examples: one degree north and east, 50 m, action WAYPOINT.\<close>

definition wp_a :: waypoint where
  "wp_a = \<lparr>lat = 1, lon = 1, alt = 50, action = 1, param1 = 500, param2 = 0, param3 = 0,
           flag = 0\<rparr>"

text \<open>
  A store that holds \<open>wp_a\<close> in its first \<open>n\<close> slots and \<open>after\<close> in every other slot.
\<close>

definition first_slots :: "nat \<Rightarrow> waypoint option \<Rightarrow> int \<Rightarrow> waypoint option" where
  "first_slots n after i = (if 0 \<le> i \<and> i < int n then Some wp_a else after)"
section \<open>Properties of the frame codec\<close>

subsection \<open>The integer computations agree with their 8-bit reading\<close>

lemma foldl_xor_word:
  "(word_of_int (foldl (\<lambda>chk b. chk XOR uint b) c data) :: byte) = foldl (XOR) (word_of_int c) data"
proof (induction data arbitrary: c)
  case Nil
  show ?case by simp
next
  case (Cons b data)
  have "(word_of_int (c XOR uint b) :: byte) = word_of_int c XOR b"
    by (simp add: word_wi_log_defs [symmetric])
  then show ?case using Cons by simp
qed

lemma foldl_xor_shift: "foldl (XOR) (a::byte) data = a XOR foldl (XOR) 0 data"
proof (induction data arbitrary: a)
  case Nil
  show ?case by simp
next
  case (Cons b data)
  have "foldl (XOR) (a XOR b) data = (a XOR b) XOR foldl (XOR) 0 data" by (rule Cons.IH)
  moreover have "foldl (XOR) b data = b XOR foldl (XOR) 0 data" by (rule Cons.IH)
  ultimately show ?case by (simp add: xor.assoc)
qed

lemma uint_byte_bound: "uint (b::byte) < 256"
  using uint_bounded [of b] by simp

lemma foldl_xor_range:
  fixes data :: "byte list"
  shows "0 \<le> c \<Longrightarrow> c < 256 \<Longrightarrow>
    0 \<le> foldl (\<lambda>chk b. chk XOR uint b) c data \<and> foldl (\<lambda>chk b. chk XOR uint b) c data < 256"
proof (induction data arbitrary: c)
  case Nil
  then show ?case by simp
next
  case (Cons b data)
  have "uint b < 2 ^ 8" using uint_byte_bound [of b] by simp
  then have "c XOR uint b < 2 ^ 8" using Cons.prems by (intro XOR_upper) simp_all
  then show ?case using Cons by simp
qed

lemma checksum_v1_word:
  "(word_of_int (calculate_checksum_v1 sz code data) :: byte)
     = word_of_int sz XOR word_of_int code XOR fold_xor data"
proof -
  have "(word_of_int (calculate_checksum_v1 sz code data) :: byte)
          = foldl (XOR) (word_of_int (sz XOR code)) data"
    unfolding calculate_checksum_v1_def by (rule foldl_xor_word)
  also have "\<dots> = word_of_int (sz XOR code) XOR fold_xor data"
    unfolding fold_xor_def by (rule foldl_xor_shift)
  finally show ?thesis by (simp add: word_wi_log_defs [symmetric] xor.assoc)
qed

lemma checksum_v1_range:
  assumes "0 \<le> sz" "sz < 256" "0 \<le> code" "code < 256"
  shows "0 \<le> calculate_checksum_v1 sz code data \<and> calculate_checksum_v1 sz code data < 256"
proof -
  have "sz XOR code < 2 ^ 8" using assms by (intro XOR_upper) simp_all
  moreover have "0 \<le> sz XOR code" using assms by simp
  ultimately show ?thesis
    unfolding calculate_checksum_v1_def by (intro foldl_xor_range) simp_all
qed

lemma and_80: "uint (w::byte) AND 0x80 \<noteq> 0 \<longleftrightarrow> bit w 7"
proof -
  have "(uint w AND 0x80) = (uint w AND push_bit 7 1)" by simp
  also have "\<dots> \<noteq> 0 \<longleftrightarrow> bit (uint w) 7"
    by (simp only: and_exp_eq_0_iff_not_bit push_bit_of_1) simp
  finally show ?thesis by (simp add: bit_uint_iff)
qed

lemma mask_ff: "(k::int) AND 0xFF = take_bit 8 k"
  by (simp add: take_bit_eq_mask mask_eq_exp_minus_1)

lemma uint_shl: "uint (push_bit 1 (w::byte)) = take_bit 8 (push_bit 1 (uint w))"
  by (simp only: unsigned_push_bit_eq) simp

lemma uint_d5: "uint (0xD5 :: byte) = 0xD5"
  by simp

lemma take_bit_d5: "take_bit 8 (0xD5::int) = 0xD5"
  by simp

lemma crc_shift_word: "crc_shift (uint (w::byte)) = uint (crc8_shift_spec w)"
proof (cases "bit w 7")
  case True
  have "uint (push_bit 1 w XOR 0xD5) = take_bit 8 (push_bit 1 (uint w)) XOR take_bit 8 0xD5"
    by (simp only: unsigned_xor_eq uint_shl uint_d5 take_bit_d5)
  also have "\<dots> = take_bit 8 (push_bit 1 (uint w) XOR 0xD5)"
    by (simp only: take_bit_xor)
  finally show ?thesis using True
    by (simp only: crc_shift_def crc8_shift_spec_def and_80 mask_ff if_True)
next
  case False
  then show ?thesis
    by (simp only: crc_shift_def crc8_shift_spec_def and_80 mask_ff if_False uint_shl)
qed

lemma crc_shift_funpow: "(crc_shift ^^ n) (uint (w::byte)) = uint ((crc8_shift_spec ^^ n) w)"
  by (induction n) (simp_all add: crc_shift_word)

lemma crc_byte_word: "crc_byte (uint (c::byte)) b = uint ((crc8_shift_spec ^^ 8) (c XOR b))"
  unfolding crc_byte_def by (simp only: unsigned_xor_eq [symmetric] crc_shift_funpow)

lemma foldl_crc_word:
  "foldl crc_byte (uint (c::byte)) data
     = uint (foldl (\<lambda>c b. (crc8_shift_spec ^^ 8) (c XOR b)) c data)"
  by (induction data arbitrary: c) (simp_all only: foldl.simps crc_byte_word)

lemma calculate_crc_v2_word: "calculate_crc_v2 data = uint (crc8_dvb_s2_spec data)"
  using foldl_crc_word [of 0 data] by (simp add: calculate_crc_v2_def crc8_dvb_s2_spec_def)

lemma calculate_crc_v2_range: "0 \<le> calculate_crc_v2 data \<and> calculate_crc_v2 data < 256"
  using uint_byte_bound [of "crc8_dvb_s2_spec data"] by (simp add: calculate_crc_v2_word)

lemma calculate_crc_v2_byte: "(word_of_int (calculate_crc_v2 data) :: byte) = crc8_dvb_s2_spec data"
  by (simp add: calculate_crc_v2_word)

lemma word_of_int_mod_256: "(word_of_int (k mod 256) :: byte) = word_of_int k"
  by (simp add: word_of_int_eq_iff take_bit_eq_mod)

lemma le_bytes_u16: "le_bytes 2 k = u16_le k"
  by (simp add: numeral_2_eq_2 u16_le_def mask_ff take_bit_eq_mod drop_bit_eq_div
      word_of_int_mod_256)

subsection \<open>The V1 request frame\<close>

text \<open>
  Claim C5.  On an open port, for a code in 0..255 and a payload of at most 255 bytes,
  \<open>send_msp_v1\<close> writes exactly \<open>$M<\<close>, the size as one byte, the code as one byte, the
  payload, and one checksum byte equal to size XOR code XOR the XOR fold of the payload
  bytes.  A payload of more than 255 bytes raises the payload-too-large error, and nothing
  is written: the check comes before any use of the port.
\<close>

theorem send_msp_v1_frame:
  assumes "ser cm = Some s"
  shows "(\<not> write_fault s \<and> 0 \<le> code \<and> code \<le> 255 \<and> length data \<le> 255 \<longrightarrow>
            send_msp_v1 cm code data =
              Inr (cm\<lparr>ser := Some (s\<lparr>written := written s @
                     [0x24, 0x4D, 0x3C] @ [word_of_nat (length data), word_of_int code] @ data @
                     [word_of_nat (length data) XOR word_of_int code XOR fold_xor data]\<rparr>)\<rparr>))
       \<and> (255 < length data \<longrightarrow> send_msp_v1 cm code data = Inl PayloadTooLarge)"
proof (intro conjI impI)
  assume h: "\<not> write_fault s \<and> 0 \<le> code \<and> code \<le> 255 \<and> length data \<le> 255"
  let ?sz = "int (length data)"
  have r: "0 \<le> calculate_checksum_v1 ?sz code data \<and> calculate_checksum_v1 ?sz code data < 256"
    using h by (intro checksum_v1_range) simp_all
  have w: "(word_of_int (calculate_checksum_v1 ?sz code data) :: byte)
             = word_of_nat (length data) XOR word_of_int code XOR fold_xor data"
    by (simp add: checksum_v1_word)
  show "send_msp_v1 cm code data =
              Inr (cm\<lparr>ser := Some (s\<lparr>written := written s @
                     [0x24, 0x4D, 0x3C] @ [word_of_nat (length data), word_of_int code] @ data @
                     [word_of_nat (length data) XOR word_of_int code XOR fold_xor data]\<rparr>)\<rparr>)"
    using assms h r w by (simp add: send_msp_v1_def ser_write_def MSP_V1_HEADER_def)
next
  assume "255 < length data"
  then show "send_msp_v1 cm code data = Inl PayloadTooLarge"
    using assms by (simp add: send_msp_v1_def)
qed

theorem send_msp_v1_frame_witness:
  "send_msp_v1 \<lparr>ser = Some \<lparr>written = [], incoming = [], write_fault = False\<rparr>,
                 msp_v2_supported = False\<rparr> 118 [5]
     = Inr \<lparr>ser = Some \<lparr>written = [0x24, 0x4D, 0x3C, 1, 118, 5, 114], incoming = [],
                         write_fault = False\<rparr>, msp_v2_supported = False\<rparr>
   \<and> send_msp_v1 \<lparr>ser = Some \<lparr>written = [], incoming = [], write_fault = False\<rparr>,
                 msp_v2_supported = False\<rparr> 118 (replicate 256 0) = Inl PayloadTooLarge"
  using send_msp_v1_frame [of "\<lparr>ser = Some \<lparr>written = [], incoming = [], write_fault = False\<rparr>,
                 msp_v2_supported = False\<rparr>" "\<lparr>written = [], incoming = [], write_fault = False\<rparr>" 118 "[5]"]
    send_msp_v1_frame [of "\<lparr>ser = Some \<lparr>written = [], incoming = [], write_fault = False\<rparr>,
                 msp_v2_supported = False\<rparr>" "\<lparr>written = [], incoming = [], write_fault = False\<rparr>" 118 "replicate 256 0"]
  by (simp add: fold_xor_def)

subsection \<open>The V2 request frame\<close>

text \<open>
  Claim C4.  On an open port, for a code in 0..65535 and a payload of at most 65535 bytes,
  \<open>send_msp_v2\<close> writes exactly \<open>$X<\<close>, the flag byte 0, the code and the size as
  little-endian 16-bit values, the payload, and one CRC byte; the CRC is the CRC-8/DVB-S2
  value (for each byte: XOR it into the running value, then eight times shift left and XOR
  with 0xD5 if the top bit was set, on 8 bits) of flg, code, size and payload.  A payload
  of more than 65535 bytes raises the payload-too-large error.
\<close>

theorem send_msp_v2_frame:
  assumes "ser cm = Some s"
  shows "(\<not> write_fault s \<and> 0 \<le> code \<and> code \<le> 65535 \<and> length data \<le> 65535 \<longrightarrow>
            send_msp_v2 cm code data =
              Inr (cm\<lparr>ser := Some (s\<lparr>written := written s @
                     [0x24, 0x58, 0x3C] @ [0] @ u16_le code @ u16_le (int (length data)) @ data @
                     [crc8_dvb_s2_spec ([0] @ u16_le code @ u16_le (int (length data)) @ data)]\<rparr>)\<rparr>))
       \<and> (65535 < length data \<longrightarrow> send_msp_v2 cm code data = Inl PayloadTooLarge)"
proof (intro conjI impI)
  assume h: "\<not> write_fault s \<and> 0 \<le> code \<and> code \<le> 65535 \<and> length data \<le> 65535"
  let ?hp = "[0] @ u16_le code @ u16_le (int (length data)) @ data"
  have p: "pack_all [pack_unsigned 1 0, pack_unsigned 2 code, pack_unsigned 2 (int (length data)), Inr data] = Inr ?hp"
    using h by (simp add: pack_unsigned_def le_bytes_u16)
  show "send_msp_v2 cm code data =
              Inr (cm\<lparr>ser := Some (s\<lparr>written := written s @
                     [0x24, 0x58, 0x3C] @ [0] @ u16_le code @ u16_le (int (length data)) @ data @
                     [crc8_dvb_s2_spec ([0] @ u16_le code @ u16_le (int (length data)) @ data)]\<rparr>)\<rparr>)"
    using assms h p by (simp add: send_msp_v2_def ser_write_def MSP_V2_HEADER_def Let_def
        calculate_crc_v2_range calculate_crc_v2_byte)
next
  assume "65535 < length data"
  then show "send_msp_v2 cm code data = Inl PayloadTooLarge"
    using assms by (simp add: send_msp_v2_def)
qed

theorem send_msp_v2_frame_witness:
  "send_msp_v2 \<lparr>ser = Some \<lparr>written = [], incoming = [], write_fault = False\<rparr>,
                 msp_v2_supported = True\<rparr> 118 [5]
     = Inr \<lparr>ser = Some \<lparr>written = [0x24, 0x58, 0x3C, 0, 118, 0, 1, 0, 5, 96], incoming = [],
                         write_fault = False\<rparr>, msp_v2_supported = True\<rparr>
   \<and> send_msp_v2 \<lparr>ser = Some \<lparr>written = [], incoming = [], write_fault = False\<rparr>,
                 msp_v2_supported = True\<rparr> 118 (replicate 65536 0) = Inl PayloadTooLarge"
proof -
  have crc: "crc8_dvb_s2_spec [0, 118, 0, 1, 0, 5] = 96"
    by code_simp
  show ?thesis
  using crc send_msp_v2_frame [of "\<lparr>ser = Some \<lparr>written = [], incoming = [], write_fault = False\<rparr>,
                 msp_v2_supported = True\<rparr>" "\<lparr>written = [], incoming = [], write_fault = False\<rparr>" 118 "[5]"]
    send_msp_v2_frame [of "\<lparr>ser = Some \<lparr>written = [], incoming = [], write_fault = False\<rparr>,
                 msp_v2_supported = True\<rparr>" "\<lparr>written = [], incoming = [], write_fault = False\<rparr>" 118 "replicate 65536 0"]
  by (simp add: u16_le_def)
qed

section \<open>Properties of the receive path\<close>

subsection \<open>Rules for sequencing\<close>

lemma tripleI: "(\<And>s. P s \<Longrightarrow> (case m s of (Inl e, s') \<Rightarrow> E e s' | (Inr a, s') \<Rightarrow> Q a s')) \<Longrightarrow> triple P m Q E"
  by (simp add: triple_def)

lemma tripleD: "triple P m Q E \<Longrightarrow> P s \<Longrightarrow> (case m s of (Inl e, s') \<Rightarrow> E e s' | (Inr a, s') \<Rightarrow> Q a s')"
  by (simp add: triple_def)

lemma triple_seq:
  assumes "triple P m R E" and "\<And>a. triple (R a) (f a) Q E"
  shows "triple P (seq m f) Q E"
proof (rule tripleI)
  fix s assume "P s"
  with assms(1) have m: "case m s of (Inl e, s') \<Rightarrow> E e s' | (Inr a, s') \<Rightarrow> R a s'"
    by (rule tripleD)
  show "case seq m f s of (Inl e, s') \<Rightarrow> E e s' | (Inr a, s') \<Rightarrow> Q a s'"
  proof (cases "m s")
    case (Pair r s')
    show ?thesis
    proof (cases r)
      case (Inl e)
      with Pair m show ?thesis by (simp add: seq_def)
    next
      case (Inr a)
      with Pair m have "R a s'" by simp
      with assms(2) have "case f a s' of (Inl e, s'') \<Rightarrow> E e s'' | (Inr b, s'') \<Rightarrow> Q b s''"
        by (rule tripleD)
      with Pair Inr show ?thesis by (simp add: seq_def)
    qed
  qed
qed

lemma triple_ret: "(\<And>s. P s \<Longrightarrow> Q a s) \<Longrightarrow> triple P (ret a) Q E"
  by (simp add: triple_def ret_def)

lemma triple_lift:
  "(\<And>a s. P s \<Longrightarrow> x = Inr a \<Longrightarrow> Q a s) \<Longrightarrow> (\<And>e s. P s \<Longrightarrow> x = Inl e \<Longrightarrow> E e s) \<Longrightarrow> triple P (lift x) Q E"
  by (cases x) (simp_all add: triple_def lift_def)

lemma triple_weaken:
  "triple P' m Q E \<Longrightarrow> (\<And>s. P s \<Longrightarrow> P' s) \<Longrightarrow> triple P m Q E"
  by (simp add: triple_def)

lemma take_bytes_quiet:
  "Fault \<notin> set evs \<Longrightarrow> \<exists>bs evs'. take_bytes n evs = (Inr bs, evs') \<and> Fault \<notin> set evs' \<and> length bs \<le> n"
proof (induction n evs rule: take_bytes.induct)
  case (5 n b evs)
  then obtain bs evs' where "take_bytes n evs = (Inr bs, evs')" "Fault \<notin> set evs'" "length bs \<le> n"
    by auto
  then show ?case by simp
qed simp_all

lemma triple_ser_read:
  "triple quiet (ser_read n) (\<lambda>bs cm. quiet cm \<and> length bs \<le> n) E"
proof (rule tripleI)
  fix cm assume "quiet cm"
  then obtain s where s: "ser cm = Some s" "Fault \<notin> set (incoming s)"
    by (auto simp: quiet_def split: option.splits)
  from take_bytes_quiet [OF s(2), of n] obtain bs evs' where
    "take_bytes n (incoming s) = (Inr bs, evs')" "Fault \<notin> set evs'" "length bs \<le> n" by blast
  with s show "case ser_read n cm of (Inl e, s') \<Rightarrow> E e s' | (Inr bs, cm') \<Rightarrow> quiet cm' \<and> length bs \<le> n"
    by (simp add: ser_read_def quiet_def)
qed

lemma ord_cases: "(\<exists>b. bs = [b] \<and> ord bs = Inr (uint b)) \<or> ord bs = Inl TypeError"
  by (cases bs rule: ord.cases) simp_all

lemma triple_ord:
  "triple P (lift (ord bs)) (\<lambda>k cm. P cm \<and> 0 \<le> k \<and> k < 256) (\<lambda>e cm. P cm \<and> e = TypeError)"
proof (rule triple_lift)
  fix a s assume "P s" "ord bs = Inr a"
  then show "P s \<and> 0 \<le> a \<and> a < 256" using ord_cases [of bs] uint_byte_bound by auto
next
  fix e s assume "P s" "ord bs = Inl e"
  then show "P s \<and> e = TypeError" using ord_cases [of bs] by auto
qed


lemma seq_ser_read:
  assumes "\<And>bs. length bs \<le> n \<Longrightarrow> triple quiet (f bs) Q E"
  shows "triple quiet (seq (ser_read n) f) Q E"
proof (rule triple_seq [OF triple_ser_read])
  fix bs
  show "triple (\<lambda>cm. quiet cm \<and> length bs \<le> n) (f bs) Q E"
    using assms [of bs] by (auto simp: triple_def)
qed

lemma seq_ord:
  assumes "\<And>k. 0 \<le> k \<Longrightarrow> k < 256 \<Longrightarrow> triple P (f k) Q E"
    and "\<And>cm. P cm \<Longrightarrow> E TypeError cm"
  shows "triple P (seq (lift (ord bs)) f) Q E"
proof (rule tripleI)
  fix cm assume P: "P cm"
  from ord_cases [of bs] show "case seq (lift (ord bs)) f cm of (Inl e, s') \<Rightarrow> E e s' | (Inr a, s') \<Rightarrow> Q a s'"
  proof
    assume "\<exists>b. bs = [b] \<and> ord bs = Inr (uint b)"
    then obtain b :: byte where b: "ord bs = Inr (uint b)" by blast
    have "triple P (f (uint b)) Q E" using uint_byte_bound [of b] by (intro assms(1)) simp_all
    from tripleD [OF this P] b show ?thesis by (simp add: seq_def lift_def)
  next
    assume "ord bs = Inl TypeError"
    then show ?thesis using assms(2) [OF P] by (simp add: seq_def lift_def)
  qed
qed

lemma seq_unpack_HH:
  assumes "\<And>code sz. triple P (f (code, sz)) Q E"
    and "\<And>cm. P cm \<Longrightarrow> E StructError cm"
  shows "triple P (seq (lift (unpack_HH bs)) f) Q E"
proof (rule tripleI)
  fix cm assume P: "P cm"
  show "case seq (lift (unpack_HH bs)) f cm of (Inl e, s') \<Rightarrow> E e s' | (Inr a, s') \<Rightarrow> Q a s'"
  proof (cases "length bs = 4")
    case True
    from tripleD [OF assms(1) P, of "le_uint (take 2 bs)" "le_uint (drop 2 bs)"] True
    show ?thesis by (simp add: seq_def lift_def unpack_HH_def)
  next
    case False
    then show ?thesis using assms(2) [OF P] by (simp add: seq_def lift_def unpack_HH_def)
  qed
qed

lemma pack_header_payload:
  assumes "0 \<le> flg" "flg < 256"
  shows "(\<exists>hp. pack_all [bytes_of [flg], pack_unsigned 2 code, pack_unsigned 2 sz, Inr data] = Inr hp)
       \<or> pack_all [bytes_of [flg], pack_unsigned 2 code, pack_unsigned 2 sz, Inr data] = Inl StructError"
  using assms by (simp add: pack_unsigned_def)

lemma seq_pack_header_payload:
  assumes "0 \<le> flg" "flg < 256"
    and "\<And>hp. triple P (f hp) Q E"
    and "\<And>cm. P cm \<Longrightarrow> E StructError cm"
  shows "triple P (seq (lift (pack_all [bytes_of [flg], pack_unsigned 2 code, pack_unsigned 2 sz,
                              Inr data])) f) Q E"
proof (rule tripleI)
  fix cm assume P: "P cm"
  let ?p = "pack_all [bytes_of [flg], pack_unsigned 2 code, pack_unsigned 2 sz, Inr data]"
  from pack_header_payload [OF assms(1,2), of code sz data]
  show "case seq (lift ?p) f cm of (Inl e, s') \<Rightarrow> E e s' | (Inr a, s') \<Rightarrow> Q a s'"
  proof
    assume "\<exists>hp. ?p = Inr hp"
    then obtain hp where hp: "?p = Inr hp" by blast
    from tripleD [OF assms(3) P, of hp] show ?thesis by (simp only: seq_def lift_def hp) simp
  next
    assume "?p = Inl StructError"
    then show ?thesis using assms(4) [OF P] by (simp only: seq_def lift_def) simp
  qed
qed

lemma triple_verdict:
  "triple quiet (if c then ret (None, None) else ret (Some code, Some data))
     (\<lambda>r cm. quiet cm \<and> well_shaped r) E"
  by (simp add: triple_def ret_def well_shaped_def)

lemma triple_parse_guard:
  assumes "triple quiet body (\<lambda>r cm. quiet cm \<and> well_shaped r)
             (\<lambda>e cm. quiet cm \<and> (e = StructError \<or> e = TypeError))"
  shows "triple quiet (parse_guard body) (\<lambda>r cm. quiet cm \<and> well_shaped r) E"
proof (rule tripleI)
  fix cm assume "quiet cm"
  from tripleD [OF assms this]
  show "case parse_guard body cm of (Inl e, s') \<Rightarrow> E e s' | (Inr r, cm') \<Rightarrow> quiet cm' \<and> well_shaped r"
    by (auto simp: parse_guard_def well_shaped_def split: prod.splits sum.splits)
qed

lemma quiet_connected: "quiet cm \<Longrightarrow> ser cm \<noteq> None"
  by (auto simp: quiet_def split: option.splits)

lemma triple_read_v1_response:
  "triple quiet read_v1_response (\<lambda>r cm. quiet cm \<and> well_shaped r) E"
proof -
  have "triple quiet (parse_guard
        (seq (ser_read 1) (\<lambda>b1. seq (lift (ord b1)) (\<lambda>sz.
         seq (ser_read 1) (\<lambda>b2. seq (lift (ord b2)) (\<lambda>code.
         seq (ser_read (nat sz)) (\<lambda>data.
         seq (ser_read 1) (\<lambda>b3. seq (lift (ord b3)) (\<lambda>chk.
           let expected_chk = calculate_checksum_v1 sz code data in
           if chk \<noteq> expected_chk then ret (None, None)
           else ret (Some code, Some data))))))))))
      (\<lambda>r cm. quiet cm \<and> well_shaped r) E"
    unfolding Let_def
    by (intro triple_parse_guard seq_ser_read seq_ord triple_verdict) simp_all
  then show ?thesis
    by (auto simp: triple_def read_v1_response_def dest: quiet_connected)
qed

lemma triple_read_v2_response:
  "triple quiet read_v2_response (\<lambda>r cm. quiet cm \<and> well_shaped r) E"
proof -
  have "triple quiet (parse_guard
        (seq (ser_read 1) (\<lambda>b1. seq (lift (ord b1)) (\<lambda>flg.
         seq (ser_read 4) (\<lambda>b4. seq (lift (unpack_HH b4)) (\<lambda>(code, sz).
         seq (ser_read (nat sz)) (\<lambda>data.
         seq (ser_read 1) (\<lambda>b5. seq (lift (ord b5)) (\<lambda>crc.
         seq (lift (pack_all [bytes_of [flg], pack_unsigned 2 code, pack_unsigned 2 sz,
                              Inr data])) (\<lambda>header_payload.
           let expected_crc = calculate_crc_v2 header_payload in
           if crc \<noteq> expected_crc then ret (None, None)
           else ret (Some code, Some data)))))))))))
      (\<lambda>r cm. quiet cm \<and> well_shaped r) E"
    unfolding Let_def split_def
    by (intro triple_parse_guard seq_ser_read seq_ord seq_unpack_HH seq_pack_header_payload
        triple_verdict) simp_all
  then show ?thesis
    by (auto simp: triple_def read_v2_response_def dest: quiet_connected)
qed

subsection \<open>The header scan\<close>

lemma quiet_ser_read:
  assumes "quiet cm"
  shows "\<exists>bs cm'. ser_read n cm = (Inr bs, cm') \<and> quiet cm' \<and> length bs \<le> n"
  using tripleD [OF triple_ser_read [of n "\<lambda>_ _. False"] assms]
  by (auto split: prod.splits sum.splits)

lemma triple_read_loop: "triple quiet (read_loop d) (\<lambda>r cm. quiet cm \<and> well_shaped r) E"
proof (induction d)
  case 0
  show ?case by (simp add: triple_def well_shaped_def)
next
  case (Suc d)
  show ?case
  proof (rule tripleI)
    fix cm assume q: "quiet cm"
    from quiet_ser_read [OF q, of 1] obtain byte cm1 where
      r1: "ser_read 1 cm = (Inr byte, cm1)" and q1: "quiet cm1" by blast
    from quiet_ser_read [OF q1, of 2] obtain rest cm2 where
      r2: "ser_read 2 cm1 = (Inr rest, cm2)" and q2: "quiet cm2" by blast
    note ih1 = tripleD [OF Suc q1] and ih2 = tripleD [OF Suc q2]
      and v1 = tripleD [OF triple_read_v1_response [of E] q2]
      and v2 = tripleD [OF triple_read_v2_response [of E] q2]
    show "case read_loop (Suc d) cm of (Inl e, s') \<Rightarrow> E e s'
          | (Inr r, cm') \<Rightarrow> quiet cm' \<and> well_shaped r"
      using r1 r2 q2 ih1 ih2 v1 v2 by (simp add: Let_def well_shaped_def)
  qed
qed

lemma read_response_quiet:
  assumes "quiet cm"
  shows "\<exists>r cm'. read_response d cm = (Inr r, cm') \<and> well_shaped r"
  using tripleD [OF triple_read_loop [of d "\<lambda>_ _. False"] assms] quiet_connected [OF assms]
  by (auto simp: read_response_def split: prod.splits sum.splits)

lemma take_bytes_map: "take_bytes (length bs) (map Byte bs @ rest) = (Inr bs, rest)"
  by (induction bs) simp_all

lemma ser_receiving [simp]: "ser (receiving cm s evs) = Some (s\<lparr>incoming := evs\<rparr>)"
  by (simp add: receiving_def)

lemma receiving_receiving [simp]:
  "receiving (receiving cm s evs) (s\<lparr>incoming := evs\<rparr>) evs' = receiving cm s evs'"
  by (simp add: receiving_def)

lemma ser_read_bytes:
  "length bs = n \<Longrightarrow>
   ser_read n (receiving cm s (map Byte bs @ rest)) = (Inr bs, receiving cm s rest)"
  using take_bytes_map [of bs rest] by (auto simp: ser_read_def receiving_def)

lemma ser_read_one [simp]:
  "ser_read (Suc 0) (receiving cm s (Byte b # rest)) = (Inr [b], receiving cm s rest)"
  using ser_read_bytes [of "[b]" 1 cm s rest] by simp

lemma ser_read_gap [simp]:
  "ser_read (Suc 0) (receiving cm s (Gap # rest)) = (Inr [], receiving cm s rest)"
  by (simp add: ser_read_def receiving_def)

lemma ser_read_silent [simp]:
  "ser_read (Suc 0) (receiving cm s []) = (Inr [], receiving cm s [])"
  by (simp add: ser_read_def receiving_def)

lemma read_loop_silent: "read_loop d (receiving cm s []) = (Inr (None, None), receiving cm s [])"
  by (induction d) simp_all

lemma read_loop_noise:
  "\<forall>e\<in>set evs. noise e \<Longrightarrow>
   read_loop (length evs + d) (receiving cm s (evs @ rest)) = read_loop d (receiving cm s rest)"
proof (induction evs)
  case Nil
  show ?case by simp
next
  case (Cons e evs)
  then show ?case by (cases e) simp_all
qed

lemma read_loop_deadline:
  "\<forall>e\<in>set evs. noise e \<Longrightarrow> d \<le> length evs \<Longrightarrow>
   read_loop d (receiving cm s (evs @ rest)) = (Inr (None, None), receiving cm s (drop d evs @ rest))"
proof (induction d arbitrary: evs)
  case 0
  show ?case by simp
next
  case (Suc d)
  then obtain e evs' where e: "evs = e # evs'" by (cases evs) auto
  with Suc show ?case by (cases e) simp_all
qed

subsection \<open>Whole frames on the line\<close>

lemma ser_read_two [simp]:
  "ser_read 2 (receiving cm s (Byte a # Byte b # rest)) = (Inr [a, b], receiving cm s rest)"
  using ser_read_bytes [of "[a, b]" 2 cm s rest] by simp

lemma ser_read_four [simp]:
  "ser_read 4 (receiving cm s (Byte a # Byte b # Byte c # Byte d # rest))
     = (Inr [a, b, c, d], receiving cm s rest)"
  using ser_read_bytes [of "[a, b, c, d]" 4 cm s rest] by simp

lemma read_v1_response_frame:
  assumes "length data = unat sz"
  shows "read_v1_response (receiving cm s (Byte sz # Byte code # map Byte data @ Byte chk # rest)) =
     (Inr (if uint chk \<noteq> calculate_checksum_v1 (uint sz) (uint code) data then (None, None)
           else (Some (uint code), Some data)), receiving cm s rest)"
proof -
  have "ser_read (nat (uint sz)) (receiving cm s (map Byte data @ Byte chk # rest))
          = (Inr data, receiving cm s (Byte chk # rest))"
    using assms by (intro ser_read_bytes) simp
  then show ?thesis
    by (simp add: read_v1_response_def parse_guard_def seq_def lift_def ret_def)
qed

lemma le_uint_two: "le_uint [a, b] = uint a + 256 * uint b"
  by simp

lemma le_bytes_le_uint_two: "le_bytes 2 (le_uint [a, b]) = [a, b]"
proof -
  have a: "uint a < 256" "0 \<le> uint a" and b: "uint b < 256" "0 \<le> uint b"
    using uint_byte_bound by simp_all
  have "(uint a + 256 * uint b) mod 256 = uint a" using a by simp
  moreover have "(uint a + 256 * uint b) div 256 = uint b" using a by simp
  ultimately show ?thesis
    by (simp add: numeral_2_eq_2 word_of_int_mod_256)
qed

lemma le_uint_two_range: "0 \<le> le_uint [a, b] \<and> le_uint [a, b] < 65536"
  using uint_byte_bound [of a] uint_byte_bound [of b] by simp

lemma read_v2_response_frame:
  assumes "length data = nat (le_uint [slo, shi])"
  shows "read_v2_response (receiving cm s
           (Byte flg # Byte clo # Byte chi # Byte slo # Byte shi # map Byte data @ Byte crc # rest)) =
     (Inr (if uint crc \<noteq> calculate_crc_v2 ([flg, clo, chi, slo, shi] @ data) then (None, None)
           else (Some (le_uint [clo, chi]), Some data)), receiving cm s rest)"
proof -
  have d: "ser_read (nat (le_uint [slo, shi])) (receiving cm s (map Byte data @ Byte crc # rest))
          = (Inr data, receiving cm s (Byte crc # rest))"
    using assms by (intro ser_read_bytes) simp
  have p: "pack_all [bytes_of [uint flg], pack_unsigned 2 (le_uint [clo, chi]),
                     pack_unsigned 2 (le_uint [slo, shi]), Inr data]
             = Inr ([flg, clo, chi, slo, shi] @ data)"
    using le_uint_two_range [of clo chi] le_uint_two_range [of slo shi] uint_byte_bound [of flg]
    by (simp only: pack_unsigned_def le_bytes_le_uint_two) simp
  show ?thesis
    using d p
    by (simp add: read_v2_response_def parse_guard_def seq_def lift_def ret_def unpack_HH_def
        del: le_uint.simps pack_all.simps bytes_of.simps)
qed

lemma read_loop_v1_header:
  "read_loop (Suc d) (receiving cm s (Byte 0x24 # Byte 0x4D # Byte 0x3E # evs))
     = read_v1_response (receiving cm s evs)"
  by (simp add: MSP_V1_RESPONSE_def)

lemma read_loop_v2_header:
  "read_loop (Suc d) (receiving cm s (Byte 0x24 # Byte 0x58 # Byte 0x3E # evs))
     = read_v2_response (receiving cm s evs)"
  by (simp add: MSP_V1_RESPONSE_def MSP_V2_RESPONSE_def)

lemma read_loop_error_header:
  "read_loop (Suc d) (receiving cm s (Byte 0x24 # Byte 0x4D # Byte 0x21 # evs))
     = (Inr (None, None), receiving cm s evs)"
  by (simp add: MSP_V1_RESPONSE_def MSP_V2_RESPONSE_def MSP_ERROR_def)

lemma read_response_receiving:
  "read_response d (receiving cm s evs) =
     (case read_loop d (receiving cm s evs) of
        (Inl e, cm') \<Rightarrow> (if e = SerialException then (Inl ReadFailed, cm') else (Inl e, cm'))
      | (Inr r, cm') \<Rightarrow> (Inr r, cm'))"
  by (simp add: read_response_def)


subsection \<open>A result that is not empty is a frame whose integrity value matched\<close>

lemma checksum_v1_uint:
  "calculate_checksum_v1 (uint (sz::byte)) (uint (c::byte)) data = uint (sz XOR c XOR fold_xor data)"
proof -
  have r: "0 \<le> calculate_checksum_v1 (uint sz) (uint c) data
         \<and> calculate_checksum_v1 (uint sz) (uint c) data < 256"
    using uint_byte_bound [of sz] uint_byte_bound [of c] by (intro checksum_v1_range) simp_all
  have "uint (word_of_int (calculate_checksum_v1 (uint sz) (uint c) data) :: byte)
          = calculate_checksum_v1 (uint sz) (uint c) data"
    using r by (simp add: uint_word_of_int take_bit_eq_mod)
  then show ?thesis by (simp add: checksum_v1_word)
qed

lemma checksum_v1_match:
  "uint (chk::byte) = calculate_checksum_v1 (uint (sz::byte)) (uint (c::byte)) data
     \<longleftrightarrow> chk = sz XOR c XOR fold_xor data"
  by (simp add: checksum_v1_uint word_uint_eq_iff)

lemma crc_v2_match:
  "uint (crc::byte) = calculate_crc_v2 data \<longleftrightarrow> crc = crc8_dvb_s2_spec data"
  by (simp add: calculate_crc_v2_word word_uint_eq_iff)

lemma ser_read_receiving:
  "ser_read n (receiving cm s evs)
     = (fst (take_bytes n evs), receiving cm s (snd (take_bytes n evs)))"
  by (simp add: ser_read_def receiving_def split: prod.splits)

lemma take_bytes_suffix: "\<exists>pre. evs = pre @ snd (take_bytes n evs)"
proof (induction n evs rule: take_bytes.induct)
  case (1 evs)
  show ?case by simp
next
  case (2 n)
  show ?case by simp
next
  case (3 n evs)
  have "Gap # evs = [Gap] @ evs" by simp
  then show ?case by (simp del: append.simps)
next
  case (4 n evs)
  have "Fault # evs = [Fault] @ evs" by simp
  then show ?case by (simp del: append.simps)
next
  case (5 n b evs)
  then obtain pre where p: "evs = pre @ snd (take_bytes n evs)" by blast
  have "Byte b # evs = (Byte b # pre) @ snd (take_bytes n evs)" using p by simp
  then show ?case by (auto split: prod.splits sum.splits)
qed

lemma take_bytes_full:
  "take_bytes n evs = (Inr bs, evs') \<Longrightarrow> length bs = n \<Longrightarrow> evs = map Byte bs @ evs'"
proof (induction n evs arbitrary: bs evs' rule: take_bytes.induct)
  case (5 n b evs)
  then show ?case by (auto split: prod.splits sum.splits)
qed auto


lemma take_bytes_one:
  "take_bytes (Suc 0) evs =
     (case evs of [] \<Rightarrow> (Inr [], []) | Gap # r \<Rightarrow> (Inr [], r)
      | Fault # r \<Rightarrow> (Inl SerialException, r) | Byte b # r \<Rightarrow> (Inr [b], r))"
  by (cases evs) (simp_all split: event.splits)

lemma take_bytes_one_cases:
  obtains "evs = []" | r where "evs = Gap # r" | r where "evs = Fault # r"
    | b r where "evs = Byte b # r"
proof (cases evs)
  case Nil
  then show ?thesis using that by simp
next
  case (Cons e r)
  then show ?thesis using that by (cases e) simp_all
qed

lemma read_one_ord:
  "seq (ser_read (Suc 0)) (\<lambda>b. seq (lift (ord b)) f) (receiving cm s evs) =
     (case evs of
        [] \<Rightarrow> (Inl TypeError, receiving cm s [])
      | Gap # r \<Rightarrow> (Inl TypeError, receiving cm s r)
      | Fault # r \<Rightarrow> (Inl SerialException, receiving cm s r)
      | Byte b # r \<Rightarrow> f (uint b) (receiving cm s r))"
  by (simp add: seq_def lift_def ser_read_receiving take_bytes_one split: list.splits event.splits)

lemma take_bytes_Inl: "take_bytes n evs = (Inl e, evs') \<Longrightarrow> e = SerialException"
proof (induction n evs arbitrary: evs' rule: take_bytes.induct)
  case (5 n b evs)
  then show ?case by (auto split: prod.splits sum.splits)
qed auto

lemma read_v1_response_eval:
  "read_v1_response (receiving cm s (Byte sz # Byte c # mid)) =
     (case take_bytes (unat sz) mid of
        (Inl e, evs') \<Rightarrow> (Inl e, receiving cm s evs')
      | (Inr data, evs') \<Rightarrow>
          (case evs' of
             [] \<Rightarrow> (Inr (None, None), receiving cm s [])
           | Gap # rest \<Rightarrow> (Inr (None, None), receiving cm s rest)
           | Fault # rest \<Rightarrow> (Inl SerialException, receiving cm s rest)
           | Byte chk # rest \<Rightarrow>
               (Inr (if chk = sz XOR c XOR fold_xor data then (Some (uint c), Some data)
                     else (None, None)), receiving cm s rest)))"
proof -
  obtain r evs' where t: "take_bytes (unat sz) mid = (r, evs')"
    by (cases "take_bytes (unat sz) mid")
  have d: "seq (ser_read (unat sz)) f (receiving cm s mid) =
       (case r of Inl e \<Rightarrow> (Inl e, receiving cm s evs') | Inr data \<Rightarrow> f data (receiving cm s evs'))" for f :: "byte list \<Rightarrow> (connection_manager, response) run"
    using t by (simp add: seq_def ser_read_receiving split: sum.splits)
  show ?thesis
  proof (cases r)
    case (Inl e)
    with t have "e = SerialException" by (auto dest: take_bytes_Inl)
    with Inl show ?thesis
      using t by (simp add: read_v1_response_def parse_guard_def read_one_ord d)
  next
    case (Inr data)
    then show ?thesis
      using t
      by (simp add: read_v1_response_def parse_guard_def read_one_ord d checksum_v1_match
          Let_def ret_def split: list.splits event.splits)
  qed
qed


lemma read_v1_response_sound:
  assumes "read_v1_response (receiving cm s evs) = (Inr (Some code, b), cm')"
  shows "\<exists>data rest. b = Some data \<and> v1_frame evs = Some (code, data, rest) \<and> cm' = receiving cm s rest"
proof (cases evs rule: v1_frame.cases)
  case (1 sz c mid)
  with assms show ?thesis
    by (auto simp: read_v1_response_eval split: prod.splits sum.splits list.splits event.splits if_splits)
qed (use assms in \<open>simp_all add: read_v1_response_def parse_guard_def read_one_ord
        split: list.splits event.splits\<close>)

lemma read_v2_response_eval:
  "read_v2_response (receiving cm s (Byte flg # Byte clo # Byte chi # Byte slo # Byte shi # mid)) =
     (case take_bytes (nat (le_uint [slo, shi])) mid of
        (Inl e, evs') \<Rightarrow> (Inl e, receiving cm s evs')
      | (Inr data, evs') \<Rightarrow>
          (case evs' of
             [] \<Rightarrow> (Inr (None, None), receiving cm s [])
           | Gap # rest \<Rightarrow> (Inr (None, None), receiving cm s rest)
           | Fault # rest \<Rightarrow> (Inl SerialException, receiving cm s rest)
           | Byte crc # rest \<Rightarrow>
               (Inr (if crc = crc8_dvb_s2_spec ([flg, clo, chi, slo, shi] @ data)
                     then (Some (le_uint [clo, chi]), Some data)
                     else (None, None)), receiving cm s rest)))"
proof -
  obtain r evs' where t: "take_bytes (nat (le_uint [slo, shi])) mid = (r, evs')"
    by (cases "take_bytes (nat (le_uint [slo, shi])) mid")
  have d: "seq (ser_read (nat (le_uint [slo, shi]))) f (receiving cm s mid) =
       (case r of Inl e \<Rightarrow> (Inl e, receiving cm s evs') | Inr data \<Rightarrow> f data (receiving cm s evs'))" for f :: "byte list \<Rightarrow> (connection_manager, response) run"
    using t by (simp add: seq_def ser_read_receiving split: sum.splits)
  have p: "pack_all [bytes_of [uint flg], pack_unsigned 2 (le_uint [clo, chi]),
                     pack_unsigned 2 (le_uint [slo, shi]), Inr data]
             = Inr ([flg, clo, chi, slo, shi] @ data)" for data
    using le_uint_two_range [of clo chi] le_uint_two_range [of slo shi] uint_byte_bound [of flg]
    by (simp only: pack_unsigned_def le_bytes_le_uint_two) simp
  have h: "seq (ser_read 4) g (receiving cm s (Byte clo # Byte chi # Byte slo # Byte shi # mid))
         = g [clo, chi, slo, shi] (receiving cm s mid)" for g :: "byte list \<Rightarrow> (connection_manager, response) run"
    by (simp add: seq_def)
  have u: "unpack_HH [clo, chi, slo, shi] = Inr (le_uint [clo, chi], le_uint [slo, shi])"
    by (simp add: unpack_HH_def)
  show ?thesis
  proof (cases r)
    case (Inl e)
    with t have "e = SerialException" by (auto dest: take_bytes_Inl)
    with Inl show ?thesis
      using t
      by (simp add: read_v2_response_def parse_guard_def read_one_ord h u d seq_def [of "lift _"] lift_def
          del: le_uint.simps)
  next
    case (Inr data)
    then show ?thesis
      using t
      by (simp add: read_v2_response_def parse_guard_def read_one_ord h u d p crc_v2_match
          seq_def [of "lift _"] lift_def Let_def ret_def
          del: le_uint.simps pack_all.simps bytes_of.simps
          split: list.splits event.splits)
  qed
qed


lemma read_v2_response_shape:
  assumes "read_v2_response (receiving cm s evs) = (Inr (Some code, b), cm')"
  shows "\<exists>flg clo chi slo shi mid. evs = Byte flg # Byte clo # Byte chi # Byte slo # Byte shi # mid"
proof -
  from assms obtain flg evs1 where e: "evs = Byte flg # evs1"
    by (cases evs rule: take_bytes_one_cases)
       (simp_all add: read_v2_response_def parse_guard_def read_one_ord)
  obtain r evs2 where t: "take_bytes 4 evs1 = (r, evs2)" by (cases "take_bytes 4 evs1")
  have h: "seq (ser_read 4) g (receiving cm s evs1) =
       (case r of Inl e \<Rightarrow> (Inl e, receiving cm s evs2) | Inr bs \<Rightarrow> g bs (receiving cm s evs2))" for g :: "byte list \<Rightarrow> (connection_manager, response) run"
    using t by (simp add: seq_def ser_read_receiving split: sum.splits)
  from assms obtain bs where r: "r = Inr bs" and l: "length bs = 4"
    unfolding e
    by (cases r)
       (auto simp: read_v2_response_def parse_guard_def read_one_ord h unpack_HH_def
          seq_def [of "lift _"] lift_def split: if_splits)
  from take_bytes_full [OF t [unfolded r] l] have "evs1 = map Byte bs @ evs2" .
  moreover from l obtain clo chi slo shi where "bs = [clo, chi, slo, shi]"
    by (auto simp: length_Suc_conv eval_nat_numeral)
  ultimately show ?thesis using e by simp
qed

lemma read_v2_response_sound:
  assumes "read_v2_response (receiving cm s evs) = (Inr (Some code, b), cm')"
  shows "\<exists>data rest. b = Some data \<and> v2_frame evs = Some (code, data, rest) \<and> cm' = receiving cm s rest"
proof -
  from read_v2_response_shape [OF assms] obtain flg clo chi slo shi mid where
    e: "evs = Byte flg # Byte clo # Byte chi # Byte slo # Byte shi # mid" by blast
  from assms show ?thesis
    unfolding e
    by (auto simp: read_v2_response_eval simp del: le_uint.simps
        split: prod.splits sum.splits list.splits event.splits if_splits)
qed


lemma frame_on_line_append: "frame_on_line evs f \<Longrightarrow> frame_on_line (pre @ evs) f"
  by (induction pre) simp_all

lemma frame_on_line_head: "response_frame evs = Some f \<Longrightarrow> frame_on_line evs f"
  by (cases evs) simp_all

lemma read_loop_sound:
  "read_loop d (receiving cm s evs) = (Inr (Some code, b), cm') \<Longrightarrow>
   \<exists>data rest. b = Some data \<and> frame_on_line evs (code, data, rest) \<and> cm' = receiving cm s rest"
proof (induction d arbitrary: evs)
  case 0
  then show ?case by simp
next
  case (Suc d)
  show ?case
  proof (cases evs rule: take_bytes_one_cases)
    case 1
    with Suc.prems have "read_loop d (receiving cm s []) = (Inr (Some code, b), cm')" by simp
    from Suc.IH [OF this] show ?thesis by simp
  next
    case (2 r)
    with Suc.prems have "read_loop d (receiving cm s r) = (Inr (Some code, b), cm')" by simp
    from Suc.IH [OF this] 2 show ?thesis by auto
  next
    case (3 r)
    with Suc.prems show ?thesis by (simp add: ser_read_receiving)
  next
    case (4 x r)
    show ?thesis
    proof (cases "x = 0x24")
      case False
      with 4 Suc.prems have "read_loop d (receiving cm s r) = (Inr (Some code, b), cm')" by simp
      from Suc.IH [OF this] 4 show ?thesis by auto
    next
      case True
      obtain h r2 where t: "take_bytes 2 r = (h, r2)" by (cases "take_bytes 2 r")
      from take_bytes_suffix [of r 2] t obtain pre where pre: "r = pre @ r2" by auto
      have two: "ser_read 2 (receiving cm s r) = (h, receiving cm s r2)"
        using t by (simp add: ser_read_receiving)
      from Suc.prems 4 True two obtain rest where h: "h = Inr rest"
        by (cases h) simp_all
      note run = Suc.prems [unfolded 4 True]
      consider (v1) "0x24 # rest = MSP_V1_RESPONSE"
        | (v2) "0x24 # rest \<noteq> MSP_V1_RESPONSE" "0x24 # rest = MSP_V2_RESPONSE"
        | (err) "0x24 # rest \<noteq> MSP_V1_RESPONSE" "0x24 # rest \<noteq> MSP_V2_RESPONSE"
                "0x24 # rest = MSP_ERROR"
        | (other) "0x24 # rest \<noteq> MSP_V1_RESPONSE" "0x24 # rest \<noteq> MSP_V2_RESPONSE"
                "0x24 # rest \<noteq> MSP_ERROR"
        by blast
      then show ?thesis
      proof cases
        case v1
        then have rest: "rest = [0x4D, 0x3E]" by (simp add: MSP_V1_RESPONSE_def)
        from take_bytes_full [OF t [unfolded h]] rest
        have r: "r = Byte 0x4D # Byte 0x3E # r2" by simp
        from run two h v1 have "read_v1_response (receiving cm s r2) = (Inr (Some code, b), cm')"
          by (simp add: Let_def)
        from read_v1_response_sound [OF this] obtain data rest' where
          d: "b = Some data" "v1_frame r2 = Some (code, data, rest')" "cm' = receiving cm s rest'"
          by blast
        have "response_frame evs = Some (code, data, rest')"
          using d(2) by (simp add: 4 True r MSP_V1_RESPONSE_def)
        then show ?thesis using d frame_on_line_head by blast
      next
        case v2
        then have rest: "rest = [0x58, 0x3E]" by (simp add: MSP_V2_RESPONSE_def)
        from take_bytes_full [OF t [unfolded h]] rest
        have r: "r = Byte 0x58 # Byte 0x3E # r2" by simp
        from run two h v2 have "read_v2_response (receiving cm s r2) = (Inr (Some code, b), cm')"
          by (simp add: Let_def)
        from read_v2_response_sound [OF this] obtain data rest' where
          d: "b = Some data" "v2_frame r2 = Some (code, data, rest')" "cm' = receiving cm s rest'"
          by blast
        have "response_frame evs = Some (code, data, rest')"
          using d(2) by (simp add: 4 True r MSP_V1_RESPONSE_def MSP_V2_RESPONSE_def)
        then show ?thesis using d frame_on_line_head by blast
      next
        case err
        with run two h show ?thesis by (simp add: Let_def)
      next
        case other
        with run two h have "read_loop d (receiving cm s r2) = (Inr (Some code, b), cm')"
          by (simp add: Let_def)
        from Suc.IH [OF this] obtain data rest' where
          d: "b = Some data" "frame_on_line r2 (code, data, rest')" "cm' = receiving cm s rest'"
          by blast
        have "frame_on_line ((Byte x # pre) @ r2) (code, data, rest')"
          using d(2) by (rule frame_on_line_append)
        then have "frame_on_line evs (code, data, rest')" using 4 pre by simp
        with d(1,3) show ?thesis by blast
      qed
    qed
  qed
qed


lemma line_receiving [simp]: "line (receiving cm s evs) = evs"
  by (simp add: line_def)

lemma receiving_line: "ser cm = Some s \<Longrightarrow> receiving cm s (line cm) = cm"
  by (simp add: line_def receiving_def)

lemma read_response_sound:
  assumes "read_response d cm = (Inr (Some code, b), cm')"
  shows "\<exists>data. b = Some data \<and> frame_on_line (line cm) (code, data, line cm')"
proof -
  from assms obtain s where s: "ser cm = Some s"
    by (cases "ser cm") (simp_all add: read_response_def)
  from assms s have "read_loop d cm = (Inr (Some code, b), cm')"
    by (auto simp: read_response_def split: prod.splits sum.splits if_splits)
  then have "read_loop d (receiving cm s (line cm)) = (Inr (Some code, b), cm')"
    by (simp add: receiving_line [OF s])
  from read_loop_sound [OF this] show ?thesis by auto
qed

lemma read_v1_response_mismatch:
  assumes "take_bytes (unat sz) mid = (Inr data, Byte chk # rest)"
    and "uint chk \<noteq> calculate_checksum_v1 (uint sz) (uint code) data"
  shows "read_v1_response (receiving cm s (Byte sz # Byte code # mid))
           = (Inr (None, None), receiving cm s rest)"
  using assms by (simp add: read_v1_response_eval checksum_v1_match)

lemma read_v2_response_mismatch:
  assumes "take_bytes (nat (le_uint [slo, shi])) mid = (Inr data, Byte crc # rest)"
    and "uint crc \<noteq> calculate_crc_v2 ([flg, clo, chi, slo, shi] @ data)"
  shows "read_v2_response (receiving cm s (Byte flg # Byte clo # Byte chi # Byte slo # Byte shi # mid))
           = (Inr (None, None), receiving cm s rest)"
  using assms by (simp add: read_v2_response_eval crc_v2_match del: le_uint.simps)

subsection \<open>No valid frame gives the empty result\<close>

text \<open>
  Claim C7.  When \<open>read_response\<close> obtains no valid frame it returns \<open>None, None\<close> and does
  not raise.

  \<^item> On a port whose reads never raise, every call returns, and its result is either empty
    or a code together with a payload; in the second case a response frame with that code
    and that payload is on the line, its integrity byte equal to the value recomputed from
    the bytes that were read, and the line is left just behind that frame.
  \<^item> On any port, a result with a code is such a frame: no other data is ever returned.
  \<^item> After any run of gaps and bytes other than \<open>$\<close>: a V1 response frame whose checksum
    byte differs from the checksum of what was read (the payload complete or cut short by a
    gap), a V2 response frame whose CRC byte differs from the CRC of what was read, and the
    error header \<open>$M!\<close> each give the empty result, with the frame consumed.
  \<^item> When the deadline expires during the scan, the result is empty as well.
\<close>

theorem read_response_no_valid_frame:
  "(quiet cm \<longrightarrow>
      (\<exists>r cm'. read_response d cm = (Inr r, cm') \<and> well_shaped r
         \<and> (\<forall>code data. r = (Some code, Some data) \<longrightarrow>
               frame_on_line (line cm) (code, data, line cm'))))
 \<and> (read_response d cm = (Inr (Some code, b), cm') \<longrightarrow>
      (\<exists>data. b = Some data \<and> frame_on_line (line cm) (code, data, line cm')))
 \<and> ((\<forall>e\<in>set evs. noise e) \<and> take_bytes (unat sz) mid = (Inr data, Byte chk # rest)
      \<and> uint chk \<noteq> calculate_checksum_v1 (uint sz) (uint c) data \<longrightarrow>
      read_response (length evs + Suc d)
        (receiving cm s (evs @ map Byte [0x24, 0x4D, 0x3E, sz, c] @ mid))
        = (Inr (None, None), receiving cm s rest))
 \<and> ((\<forall>e\<in>set evs. noise e)
      \<and> take_bytes (nat (le_uint [slo, shi])) mid = (Inr data, Byte crc # rest)
      \<and> uint crc \<noteq> calculate_crc_v2 ([flg, clo, chi, slo, shi] @ data) \<longrightarrow>
      read_response (length evs + Suc d)
        (receiving cm s (evs @ map Byte [0x24, 0x58, 0x3E, flg, clo, chi, slo, shi] @ mid))
        = (Inr (None, None), receiving cm s rest))
 \<and> ((\<forall>e\<in>set evs. noise e) \<longrightarrow>
      read_response (length evs + Suc d)
        (receiving cm s (evs @ map Byte [0x24, 0x4D, 0x21] @ rest))
        = (Inr (None, None), receiving cm s rest))
 \<and> ((\<forall>e\<in>set evs. noise e) \<and> d \<le> length evs \<longrightarrow>
      read_response d (receiving cm s (evs @ rest))
        = (Inr (None, None), receiving cm s (drop d evs @ rest)))"
proof (intro conjI impI)
  assume q: "quiet cm"
  from read_response_quiet [OF q, of d] obtain r cm' where
    r: "read_response d cm = (Inr r, cm')" "well_shaped r" by blast
  have "\<forall>code data. r = (Some code, Some data) \<longrightarrow> frame_on_line (line cm) (code, data, line cm')"
    using read_response_sound r(1) by blast
  with r show "\<exists>r cm'. read_response d cm = (Inr r, cm') \<and> well_shaped r
         \<and> (\<forall>code data. r = (Some code, Some data) \<longrightarrow>
               frame_on_line (line cm) (code, data, line cm'))"
    by blast
next
  assume "read_response d cm = (Inr (Some code, b), cm')"
  then show "\<exists>data. b = Some data \<and> frame_on_line (line cm) (code, data, line cm')"
    by (rule read_response_sound)
next
  assume h: "(\<forall>e\<in>set evs. noise e) \<and> take_bytes (unat sz) mid = (Inr data, Byte chk # rest)
      \<and> uint chk \<noteq> calculate_checksum_v1 (uint sz) (uint c) data"
  then have n: "\<forall>e\<in>set evs. noise e" by simp
  from h have m: "read_v1_response (receiving cm s (Byte sz # Byte c # mid))
           = (Inr (None, None), receiving cm s rest)"
    using read_v1_response_mismatch [of sz mid data chk rest c cm s] by blast
  show "read_response (length evs + Suc d)
        (receiving cm s (evs @ map Byte [0x24, 0x4D, 0x3E, sz, c] @ mid))
        = (Inr (None, None), receiving cm s rest)"
    using m
    by (simp only: read_response_receiving read_loop_noise [OF n] read_loop_v1_header
        list.map append.simps) simp
next
  assume h: "(\<forall>e\<in>set evs. noise e)
      \<and> take_bytes (nat (le_uint [slo, shi])) mid = (Inr data, Byte crc # rest)
      \<and> uint crc \<noteq> calculate_crc_v2 ([flg, clo, chi, slo, shi] @ data)"
  then have n: "\<forall>e\<in>set evs. noise e" by simp
  from h have m: "read_v2_response (receiving cm s (Byte flg # Byte clo # Byte chi # Byte slo # Byte shi # mid))
           = (Inr (None, None), receiving cm s rest)"
    using read_v2_response_mismatch [of slo shi mid data crc rest flg clo chi cm s] by blast
  show "read_response (length evs + Suc d)
        (receiving cm s (evs @ map Byte [0x24, 0x58, 0x3E, flg, clo, chi, slo, shi] @ mid))
        = (Inr (None, None), receiving cm s rest)"
    using m
    by (simp only: read_response_receiving read_loop_noise [OF n] read_loop_v2_header
        list.map append.simps) simp
next
  assume n: "\<forall>e\<in>set evs. noise e"
  show "read_response (length evs + Suc d)
        (receiving cm s (evs @ map Byte [0x24, 0x4D, 0x21] @ rest))
        = (Inr (None, None), receiving cm s rest)"
    by (simp only: read_response_receiving read_loop_noise [OF n] read_loop_error_header
        map_append list.map append.simps append_assoc) simp
next
  assume "(\<forall>e\<in>set evs. noise e) \<and> d \<le> length evs"
  then show "read_response d (receiving cm s (evs @ rest))
        = (Inr (None, None), receiving cm s (drop d evs @ rest))"
    by (simp add: read_response_receiving read_loop_deadline)
qed

theorem read_response_no_valid_frame_witness:
  "read_response (length [Gap, Byte 7] + Suc 0)
      ((receiving \<lparr>ser = None, msp_v2_supported = False\<rparr> \<lparr>written = [], incoming = [], write_fault = False\<rparr>) ([Gap, Byte 7] @ map Byte [0x24, 0x4D, 0x3E, 1, 118, 5, 114] @ [Byte 9]))
      = (Inr (Some 118, Some [5]), (receiving \<lparr>ser = None, msp_v2_supported = False\<rparr> \<lparr>written = [], incoming = [], write_fault = False\<rparr>) [Byte 9])
 \<and> frame_on_line ([Gap, Byte 7] @ map Byte [0x24, 0x4D, 0x3E, 1, 118, 5, 114] @ [Byte 9])
       (118, [5], [Byte 9])
 \<and> read_response (length [Gap, Byte 7] + Suc 1)
      ((receiving \<lparr>ser = None, msp_v2_supported = False\<rparr> \<lparr>written = [], incoming = [], write_fault = False\<rparr>) ([Gap, Byte 7] @ map Byte [0x24, 0x4D, 0x3E, 2, 118] @ [Byte 5, Gap, Byte 112, Byte 9]))
      = (Inr (None, None), (receiving \<lparr>ser = None, msp_v2_supported = False\<rparr> \<lparr>written = [], incoming = [], write_fault = False\<rparr>) [Byte 9])
 \<and> read_response (length [Gap, Byte 7] + Suc 1)
      ((receiving \<lparr>ser = None, msp_v2_supported = False\<rparr> \<lparr>written = [], incoming = [], write_fault = False\<rparr>) ([Gap, Byte 7] @ map Byte [0x24, 0x58, 0x3E, 0, 118, 0, 1, 0] @ [Byte 5, Byte 97, Byte 9]))
      = (Inr (None, None), (receiving \<lparr>ser = None, msp_v2_supported = False\<rparr> \<lparr>written = [], incoming = [], write_fault = False\<rparr>) [Byte 9])
 \<and> read_response (length [Gap, Byte 7] + Suc 1)
      ((receiving \<lparr>ser = None, msp_v2_supported = False\<rparr> \<lparr>written = [], incoming = [], write_fault = False\<rparr>) ([Gap, Byte 7] @ map Byte [0x24, 0x4D, 0x21] @ [Byte 9]))
      = (Inr (None, None), (receiving \<lparr>ser = None, msp_v2_supported = False\<rparr> \<lparr>written = [], incoming = [], write_fault = False\<rparr>) [Byte 9])
 \<and> read_response 1 ((receiving \<lparr>ser = None, msp_v2_supported = False\<rparr> \<lparr>written = [], incoming = [], write_fault = False\<rparr>) ([Gap, Byte 7] @ [Byte 9]))
      = (Inr (None, None), (receiving \<lparr>ser = None, msp_v2_supported = False\<rparr> \<lparr>written = [], incoming = [], write_fault = False\<rparr>) (drop 1 [Gap, Byte 7] @ [Byte 9]))"
proof -
  have crc: "calculate_crc_v2 ([0, 118, 0, 1, 0] @ [5]) = 96"
    by code_simp
  have chk: "calculate_checksum_v1 (uint (2::byte)) (uint (118::byte)) [5] = 113"
    by (simp add: calculate_checksum_v1_def)
  have n: "\<forall>e\<in>set [Gap, Byte 7]. noise e" by simp
  have t2: "take_bytes 2 [Byte 5, Gap, Byte 112, Byte 9] = (Inr [5], [Byte 112, Byte 9])"
    by (simp add: numeral_2_eq_2)
  have v: "read_v1_response ((receiving \<lparr>ser = None, msp_v2_supported = False\<rparr> \<lparr>written = [], incoming = [], write_fault = False\<rparr>) (Byte 1 # Byte 118 # [Byte 5, Byte 114, Byte 9]))
             = (Inr (Some 118, Some [5]), (receiving \<lparr>ser = None, msp_v2_supported = False\<rparr> \<lparr>written = [], incoming = [], write_fault = False\<rparr>) [Byte 9])"
    by (simp only: read_v1_response_eval) (simp add: fold_xor_def)
  have e: "read_response (length [Gap, Byte 7] + Suc 0)
      ((receiving \<lparr>ser = None, msp_v2_supported = False\<rparr> \<lparr>written = [], incoming = [], write_fault = False\<rparr>) ([Gap, Byte 7] @ map Byte [0x24, 0x4D, 0x3E, 1, 118, 5, 114] @ [Byte 9]))
      = (Inr (Some 118, Some [5]), (receiving \<lparr>ser = None, msp_v2_supported = False\<rparr> \<lparr>written = [], incoming = [], write_fault = False\<rparr>) [Byte 9])"
    using v
    by (simp only: read_response_receiving read_loop_noise [OF n] read_loop_v1_header
        list.map append.simps) (simp add: MSP_V1_RESPONSE_def)
  note w = read_response_no_valid_frame
    [where cm = "(receiving \<lparr>ser = None, msp_v2_supported = False\<rparr> \<lparr>written = [], incoming = [], write_fault = False\<rparr>) ([Gap, Byte 7] @ map Byte [0x24, 0x4D, 0x3E, 1, 118, 5, 114] @ [Byte 9])"
       and d = "length [Gap, Byte 7] + Suc 0" and code = 118 and b = "Some [5]"
       and cm' = "(receiving \<lparr>ser = None, msp_v2_supported = False\<rparr> \<lparr>written = [], incoming = [], write_fault = False\<rparr>) [Byte 9]"]
  note a1 = read_response_no_valid_frame
    [where cm = "\<lparr>ser = None, msp_v2_supported = False\<rparr>" and s = "\<lparr>written = [], incoming = [], write_fault = False\<rparr>"
       and evs = "[Gap, Byte 7]" and d = 1 and rest = "[Byte 9]"
       and data = "[5]" and sz = 2 and c = 118 and chk = 112
       and mid = "[Byte 5, Gap, Byte 112, Byte 9]"
       and slo = 0 and shi = 0]
  note a2 = read_response_no_valid_frame
    [where cm = "\<lparr>ser = None, msp_v2_supported = False\<rparr>" and s = "\<lparr>written = [], incoming = [], write_fault = False\<rparr>"
       and evs = "[Gap, Byte 7]" and d = 1 and rest = "[Byte 9]"
       and data = "[5]" and sz = 0
       and mid = "[Byte 5, Byte 97, Byte 9]"
       and flg = 0 and clo = 118 and chi = 0 and slo = 1 and shi = 0 and crc = 97]
  have f: "frame_on_line ([Gap, Byte 7] @ map Byte [0x24, 0x4D, 0x3E, 1, 118, 5, 114] @ [Byte 9])
       (118, [5], [Byte 9])"
    using w e by simp
  have c3: "read_response (length [Gap, Byte 7] + Suc 1)
      ((receiving \<lparr>ser = None, msp_v2_supported = False\<rparr> \<lparr>written = [], incoming = [], write_fault = False\<rparr>) ([Gap, Byte 7] @ map Byte [0x24, 0x4D, 0x3E, 2, 118] @ [Byte 5, Gap, Byte 112, Byte 9]))
      = (Inr (None, None), (receiving \<lparr>ser = None, msp_v2_supported = False\<rparr> \<lparr>written = [], incoming = [], write_fault = False\<rparr>) [Byte 9])"
    using a1 chk t2 by simp
  have c4: "read_response (length [Gap, Byte 7] + Suc 1)
      ((receiving \<lparr>ser = None, msp_v2_supported = False\<rparr> \<lparr>written = [], incoming = [], write_fault = False\<rparr>) ([Gap, Byte 7] @ map Byte [0x24, 0x58, 0x3E, 0, 118, 0, 1, 0] @ [Byte 5, Byte 97, Byte 9]))
      = (Inr (None, None), (receiving \<lparr>ser = None, msp_v2_supported = False\<rparr> \<lparr>written = [], incoming = [], write_fault = False\<rparr>) [Byte 9])"
    using a2 crc by simp
  have c5: "read_response (length [Gap, Byte 7] + Suc 1)
      ((receiving \<lparr>ser = None, msp_v2_supported = False\<rparr> \<lparr>written = [], incoming = [], write_fault = False\<rparr>) ([Gap, Byte 7] @ map Byte [0x24, 0x4D, 0x21] @ [Byte 9]))
      = (Inr (None, None), (receiving \<lparr>ser = None, msp_v2_supported = False\<rparr> \<lparr>written = [], incoming = [], write_fault = False\<rparr>) [Byte 9])"
    using a1 by simp
  have c6: "read_response 1 ((receiving \<lparr>ser = None, msp_v2_supported = False\<rparr> \<lparr>written = [], incoming = [], write_fault = False\<rparr>) ([Gap, Byte 7] @ [Byte 9]))
      = (Inr (None, None), (receiving \<lparr>ser = None, msp_v2_supported = False\<rparr> \<lparr>written = [], incoming = [], write_fault = False\<rparr>) (drop 1 [Gap, Byte 7] @ [Byte 9]))"
    using a1 by simp
  from e f c3 c4 c5 c6 show ?thesis by (intro conjI)
qed

section \<open>Properties of missions\<close>

subsection \<open>Mission files\<close>

lemma from_dict_to_dict: "from_dict (to_dict wp) = Some (Inr wp)"
  by (simp add: to_dict_def dict_get_def)

lemma load_loop_to_dict:
  "load_loop (map to_dict wps) m = Some (True, m\<lparr>waypoints := waypoints m @ wps\<rparr>)"
  by (induction wps arbitrary: m) (simp_all add: from_dict_to_dict)






subsection \<open>The capacity of a mission\<close>

lemma local_edits_capacity:
  assumes "int (length (waypoints m)) \<le> MAX_WAYPOINTS"
  shows "int (length (waypoints (snd (add_waypoint la lo al act p1 p2 p3 fl m)))) \<le> MAX_WAYPOINTS"
    and "int (length (waypoints (snd (insert_waypoint index la lo al act p1 p2 p3 fl m)))) \<le> MAX_WAYPOINTS"
    and "int (length (waypoints (snd (remove_waypoint index m)))) \<le> MAX_WAYPOINTS"
    and "int (length (waypoints (snd (clear_mission m)))) \<le> MAX_WAYPOINTS"
  using assms
  by (auto simp: add_waypoint_def insert_waypoint_def remove_waypoint_def clear_mission_def
      MAX_WAYPOINTS_def)

lemma add_waypoint_at_capacity:
  "int (length (waypoints m)) = MAX_WAYPOINTS \<Longrightarrow>
   add_waypoint la lo al act p1 p2 p3 fl m = (False, m)"
  by (simp add: add_waypoint_def)

text \<open>
  Claim C3.  The local edits keep a mission within \<open>MAX_WAYPOINTS\<close>, and adding to a full
  mission fails and changes nothing (the two lemmas above).  \<open>load_mission_from_file\<close> has
  no such check: from a file with 61 waypoints it returns \<open>True\<close> with a mission of 61
  waypoints.
\<close>

theorem load_mission_from_file_over_capacity:
  "load_mission_from_file ''m.json'' \<lparr>waypoints = [], mission_loaded = False\<rparr>
     \<lparr>contents = (\<lambda>f. None)(''m.json'' := Some (JObject
        [(''waypoints'', JArray (map to_dict (replicate 61
            \<lparr>lat = 1, lon = 1, alt = 1, action = 1, param1 = 0, param2 = 0, param3 = 0,
              flag = 0\<rparr>)))])), read_only = {}, not_kept = {}\<rparr>
   = Some (True, \<lparr>waypoints = replicate 61
            \<lparr>lat = 1, lon = 1, alt = 1, action = 1, param1 = 0, param2 = 0, param3 = 0,
              flag = 0\<rparr>, mission_loaded = False\<rparr>)
   \<and> int (length (replicate 61
            \<lparr>lat = 1::rat, lon = 1::rat, alt = 1::rat, action = 1::int, param1 = 0::int,
              param2 = 0::int, param3 = 0::int, flag = 0::int\<rparr>)) > MAX_WAYPOINTS"
  by (simp add: load_mission_from_file_def clear_mission_def dict_get_def load_loop_to_dict
      MAX_WAYPOINTS_def del: map_replicate)


subsection \<open>The waypoint record on the wire\<close>

lemma length_le_bytes [simp]: "length (le_bytes n k) = n"
  by (induction n arbitrary: k) simp_all

lemma uint_byte_mod: "uint (word_of_int (k mod 256) :: byte) = k mod 256"
  by (simp add: uint_word_of_int take_bit_eq_mod)

lemma le_uint_le_bytes: "0 \<le> k \<Longrightarrow> k < 256 ^ n \<Longrightarrow> le_uint (le_bytes n k) = k"
proof (induction n arbitrary: k)
  case 0
  then show ?case by simp
next
  case (Suc n)
  have "0 \<le> k div 256" using Suc.prems by simp
  moreover have "k div 256 < 256 ^ n" using Suc.prems by (simp add: div_less_iff_less_mult ac_simps)
  ultimately have "le_uint (le_bytes n (k div 256)) = k div 256" by (rule Suc.IH)
  then show ?case by (simp add: uint_byte_mod)
qed

lemma le_sint_le_bytes:
  assumes "- (256 ^ n div 2) \<le> k" "k < 256 ^ n div 2" "0 < n"
  shows "le_sint (le_bytes n (k mod 256 ^ n)) = k"
proof -
  let ?m = "256 ^ n :: int"
  have m: "0 < ?m" by simp
  have ev: "?m = 2 * (?m div 2)"
  proof -
    from assms(3) obtain n' where "n = Suc n'" by (cases n) auto
    then show ?thesis by simp
  qed
  have u: "le_uint (le_bytes n (k mod ?m)) = k mod ?m"
    by (intro le_uint_le_bytes) (simp_all)
  show ?thesis
  proof (cases "0 \<le> k")
    case True
    then have "k mod ?m = k" using assms(2) ev by (intro mod_pos_pos_trivial) linarith+
    then show ?thesis using u assms(2) by (simp add: le_sint_def Let_def)
  next
    case False
    have "k mod ?m = (k + ?m) mod ?m" by simp
    also have "\<dots> = k + ?m"
      using assms(1) ev False by (intro mod_pos_pos_trivial) linarith+
    finally have "k mod ?m = k + ?m" .
    then show ?thesis using u assms(1) False ev by (simp add: le_sint_def Let_def)
  qed
qed


lemma pack_waypoint_fits:
  assumes "fits_wire wp" "0 \<le> i" "i < 256"
  shows "pack_waypoint i wp =
     Inr (le_bytes 1 i @ le_bytes 1 (action wp)
          @ le_bytes 4 (py_int (lat wp * 10000000) mod 256 ^ 4)
          @ le_bytes 4 (py_int (lon wp * 10000000) mod 256 ^ 4)
          @ le_bytes 4 (py_int (alt wp * 100) mod 256 ^ 4)
          @ le_bytes 2 (param1 wp mod 256 ^ 2) @ le_bytes 2 (param2 wp mod 256 ^ 2)
          @ le_bytes 2 (param3 wp mod 256 ^ 2) @ le_bytes 1 (flag wp))"
  using assms
  by (simp add: pack_waypoint_def pack_unsigned_def pack_signed_def fits_wire_def
      del: le_bytes.simps)

lemma waypoint_of_response_fields:
  assumes "length a = 1" "length b = 1" "length c = 4" "length d = 4" "length e = 4"
    "length f = 2" "length g = 2" "length h = 2" "length k = 1"
  shows "waypoint_of_response i (a @ b @ c @ d @ e @ f @ g @ h @ k) =
     (if le_uint a = i
      then Some \<lparr>lat = of_int (le_sint c) / 10000000, lon = of_int (le_sint d) / 10000000,
                 alt = of_int (le_sint e) / 100, action = le_uint b,
                 param1 = le_sint f, param2 = le_sint g, param3 = le_sint h, flag = le_uint k\<rparr>
      else None)"
  using assms by (simp add: waypoint_of_response_def Let_def)

lemma waypoint_of_response_fits:
  assumes "fits_wire wp" "0 \<le> i" "i < 256"
  shows "waypoint_of_response i
     (le_bytes 1 i @ le_bytes 1 (action wp)
          @ le_bytes 4 (py_int (lat wp * 10000000) mod 256 ^ 4)
          @ le_bytes 4 (py_int (lon wp * 10000000) mod 256 ^ 4)
          @ le_bytes 4 (py_int (alt wp * 100) mod 256 ^ 4)
          @ le_bytes 2 (param1 wp mod 256 ^ 2) @ le_bytes 2 (param2 wp mod 256 ^ 2)
          @ le_bytes 2 (param3 wp mod 256 ^ 2) @ le_bytes 1 (flag wp)) = Some (on_wire wp)"
proof -
  have u1: "le_uint (le_bytes 1 i) = i" using assms(2,3) by (intro le_uint_le_bytes) simp_all
  have u2: "le_uint (le_bytes 1 (action wp)) = action wp"
    using assms(1) by (intro le_uint_le_bytes) (simp_all add: fits_wire_def)
  have u3: "le_uint (le_bytes 1 (flag wp)) = flag wp"
    using assms(1) by (intro le_uint_le_bytes) (simp_all add: fits_wire_def)
  have s1: "le_sint (le_bytes 4 (py_int (lat wp * 10000000) mod 256 ^ 4)) = py_int (lat wp * 10000000)"
    using assms(1) by (intro le_sint_le_bytes) (simp_all add: fits_wire_def)
  have s2: "le_sint (le_bytes 4 (py_int (lon wp * 10000000) mod 256 ^ 4)) = py_int (lon wp * 10000000)"
    using assms(1) by (intro le_sint_le_bytes) (simp_all add: fits_wire_def)
  have s3: "le_sint (le_bytes 4 (py_int (alt wp * 100) mod 256 ^ 4)) = py_int (alt wp * 100)"
    using assms(1) by (intro le_sint_le_bytes) (simp_all add: fits_wire_def)
  have p1: "le_sint (le_bytes 2 (param1 wp mod 256 ^ 2)) = param1 wp"
    using assms(1) by (intro le_sint_le_bytes) (simp_all add: fits_wire_def)
  have p2: "le_sint (le_bytes 2 (param2 wp mod 256 ^ 2)) = param2 wp"
    using assms(1) by (intro le_sint_le_bytes) (simp_all add: fits_wire_def)
  have p3: "le_sint (le_bytes 2 (param3 wp mod 256 ^ 2)) = param3 wp"
    using assms(1) by (intro le_sint_le_bytes) (simp_all add: fits_wire_def)
  show ?thesis
    by (simp only: waypoint_of_response_fields length_le_bytes u1 u2 u3 s1 s2 s3 p1 p2 p3
        on_wire_def refl if_True)
qed


subsection \<open>Downloading\<close>

lemma get_waypoint_Some_conn:
  assumes "get_waypoint i c = (Some wp, c')"
  shows "c' = c\<lparr>sent := sent c @ [wp_request i]\<rparr>"
  using assms
  by (auto simp: get_waypoint_def conn_send_msp_def conn_read_response_def pack_unsigned_def
      wp_request_def split: if_splits reply.splits)

lemma after_requests_0 [simp]: "after_requests c a 0 = c"
  by (simp add: after_requests_def)

lemma after_requests_shift:
  "after_requests (c\<lparr>sent := sent c @ [wp_request (int a)]\<rparr>) (Suc a) j = after_requests c a (Suc j)"
proof -
  have "[a..<a + Suc j] = a # [Suc a..<Suc a + j]"
    using upt_conv_Cons [of a "a + Suc j"] by simp
  then show ?thesis by (simp add: after_requests_def del: upt_Suc)
qed


lemma py_range_Cons: "a < b \<Longrightarrow> py_range a b = int a # py_range (Suc a) b"
  by (simp add: py_range_def upt_conv_Cons)

lemma download_loop_prefix:
  assumes "\<And>j. j < k \<Longrightarrow> \<exists>wp. fst (get_waypoint (int (a + j)) (after_requests c a j)) = Some wp
                              \<and> (lat wp \<noteq> 0 \<or> lon wp \<noteq> 0)"
    and "case fst (get_waypoint (int (a + k)) (after_requests c a k)) of
           None \<Rightarrow> True | Some wp \<Rightarrow> lat wp = 0 \<and> lon wp = 0"
    and "k < n"
  shows "download_loop (py_range a (a + n)) wps c =
           (wps @ map (\<lambda>j. the (fst (get_waypoint (int (a + j)) (after_requests c a j)))) [0..<k],
            snd (get_waypoint (int (a + k)) (after_requests c a k)))"
  using assms
proof (induction k arbitrary: a c wps n)
  case 0
  then have r: "py_range a (a + n) = int a # py_range (Suc a) (a + n)"
    by (intro py_range_Cons) simp
  from 0(2) show ?case
    by (cases "get_waypoint (int a) c") (auto simp: r split: option.splits)
next
  case (Suc k)
  from Suc.prems(1) [of 0] obtain wp where
    wp: "fst (get_waypoint (int a) c) = Some wp" "lat wp \<noteq> 0 \<or> lon wp \<noteq> 0" by auto
  obtain c' where g: "get_waypoint (int a) c = (Some wp, c')"
    using wp(1) by (cases "get_waypoint (int a) c") auto
  have c': "c' = c\<lparr>sent := sent c @ [wp_request (int a)]\<rparr>"
    by (rule get_waypoint_Some_conn [OF g])
  from Suc.prems(3) obtain n' where n: "n = Suc n'" by (cases n) auto
  have r: "py_range a (a + n) = int a # py_range (Suc a) (Suc a + n')"
    unfolding n by (simp add: py_range_Cons)
  have sh: "\<And>j. after_requests c' (Suc a) j = after_requests c a (Suc j)"
    unfolding c' by (rule after_requests_shift)
  have ih: "download_loop (py_range (Suc a) (Suc a + n')) (wps @ [wp]) c' =
      ((wps @ [wp]) @ map (\<lambda>j. the (fst (get_waypoint (int (Suc a + j)) (after_requests c' (Suc a) j)))) [0..<k],
       snd (get_waypoint (int (Suc a + k)) (after_requests c' (Suc a) k)))"
  proof (rule Suc.IH)
    fix j assume "j < k"
    then have "Suc j < Suc k" by simp
    from Suc.prems(1) [OF this]
    show "\<exists>wp. fst (get_waypoint (int (Suc a + j)) (after_requests c' (Suc a) j)) = Some wp
              \<and> (lat wp \<noteq> 0 \<or> lon wp \<noteq> 0)"
      by (simp add: sh)
  next
    from Suc.prems(2)
    show "case fst (get_waypoint (int (Suc a + k)) (after_requests c' (Suc a) k)) of
            None \<Rightarrow> True | Some wp \<Rightarrow> lat wp = 0 \<and> lon wp = 0"
      by (simp add: sh)
  next
    from Suc.prems(3) n show "k < n'" by simp
  qed
  have m: "map (\<lambda>j. the (fst (get_waypoint (int (a + j)) (after_requests c a j)))) [0..<Suc k]
         = wp # map (\<lambda>j. the (fst (get_waypoint (int (Suc a + j)) (after_requests c' (Suc a) j)))) [0..<k]"
  proof -
    have "[0..<Suc k] = 0 # map Suc [0..<k]"
      by (simp add: upt_conv_Cons map_Suc_upt del: upt_Suc)
    then show ?thesis using wp(1) by (simp add: sh comp_def algebra_simps del: upt_Suc)
  qed
  show ?case
    using g wp(2) ih by (simp only: r m download_loop.simps) (simp add: sh)
qed

lemma wp_request_pack:
  "0 \<le> i \<Longrightarrow> i < MAX_WAYPOINTS \<Longrightarrow> pack_unsigned 1 i = Inr (snd (wp_request i))"
  by (simp add: pack_unsigned_def wp_request_def MAX_WAYPOINTS_def)

lemma get_waypoint_eval:
  assumes "0 \<le> i" "i < MAX_WAYPOINTS" "\<not> send_raises c (sent c @ [wp_request i])"
  shows "get_waypoint i c =
     ((case respond c (sent c @ [wp_request i]) of
         Raises \<Rightarrow> None
       | Reply code data \<Rightarrow>
           if code = Some MSP_WP \<and> data \<noteq> None \<and> data \<noteq> Some []
           then waypoint_of_response i (the data) else None),
      c\<lparr>sent := sent c @ [wp_request i]\<rparr>)"
  using assms wp_request_pack [OF assms(1,2)]
  by (simp add: get_waypoint_def conn_send_msp_def conn_read_response_def wp_request_def
      split: reply.splits)

lemma le_uint_wp_request:
  "0 \<le> i \<Longrightarrow> i < MAX_WAYPOINTS \<Longrightarrow> le_uint (snd (wp_request i)) = i"
  using le_uint_le_bytes [of i 1] by (simp add: wp_request_def MAX_WAYPOINTS_def)

lemma mock_respond_request:
  assumes "0 \<le> i" "i < MAX_WAYPOINTS"
  shows "mock_respond store (h @ [wp_request i]) =
     (case store i of
        None \<Rightarrow> Reply None None
      | Some wp \<Rightarrow>
          (case pack_waypoint i wp of
             Inl e \<Rightarrow> Reply None None
           | Inr record \<Rightarrow> Reply (Some MSP_WP) (Some record)))"
  using le_uint_wp_request [OF assms]
  by (simp add: mock_respond_def Let_def) (simp add: wp_request_def)

lemma mock_get_waypoint_Some:
  assumes "respond c = mock_respond store" "send_raises c = (\<lambda>h. False)"
    and "0 \<le> i" "i < MAX_WAYPOINTS" "store i = Some wp" "fits_wire wp"
  shows "get_waypoint i c = (Some (on_wire wp), c\<lparr>sent := sent c @ [wp_request i]\<rparr>)"
proof -
  have r: "0 \<le> i" "i < 256" using assms(3,4) by (simp_all add: MAX_WAYPOINTS_def)
  define rest where "rest = le_bytes 1 (action wp)
          @ le_bytes 4 (py_int (lat wp * 10000000) mod 256 ^ 4)
          @ le_bytes 4 (py_int (lon wp * 10000000) mod 256 ^ 4)
          @ le_bytes 4 (py_int (alt wp * 100) mod 256 ^ 4)
          @ le_bytes 2 (param1 wp mod 256 ^ 2) @ le_bytes 2 (param2 wp mod 256 ^ 2)
          @ le_bytes 2 (param3 wp mod 256 ^ 2) @ le_bytes 1 (flag wp)"
  have p: "pack_waypoint i wp = Inr (le_bytes 1 i @ rest)"
    unfolding rest_def by (rule pack_waypoint_fits [OF assms(6) r])
  have w: "waypoint_of_response i (le_bytes 1 i @ rest) = Some (on_wire wp)"
    unfolding rest_def by (rule waypoint_of_response_fits [OF assms(6) r])
  have ne: "le_bytes 1 i @ rest \<noteq> []"
  proof
    assume "le_bytes 1 i @ rest = []"
    then have "length (le_bytes 1 i @ rest) = 0" by (simp only: list.size)
    then show False by (simp only: length_append length_le_bytes)
  qed
  have resp: "respond c (sent c @ [wp_request i]) = Reply (Some MSP_WP) (Some (le_bytes 1 i @ rest))"
    by (simp only: assms(1) mock_respond_request [OF assms(3,4)] assms(5) option.case p sum.case)
  have s: "\<not> send_raises c (sent c @ [wp_request i])" by (simp add: assms(2))
  show ?thesis
    by (simp only: get_waypoint_eval [OF assms(3,4) s] resp reply.case ne w option.sel
        not_False_eq_True simp_thms if_True option.distinct option.inject)
qed

lemma mock_get_waypoint_None:
  assumes "respond c = mock_respond store" "send_raises c = (\<lambda>h. False)"
    and "0 \<le> i" "i < MAX_WAYPOINTS" "store i = None"
  shows "get_waypoint i c = (None, c\<lparr>sent := sent c @ [wp_request i]\<rparr>)"
  using get_waypoint_eval [of i c] assms mock_respond_request [OF assms(3,4), of store "sent c"]
  by simp

lemma respond_after_requests [simp]: "respond (after_requests c a j) = respond c"
  by (simp add: after_requests_def)

lemma send_raises_after_requests [simp]: "send_raises (after_requests c a j) = send_raises c"
  by (simp add: after_requests_def)

lemma mock_slot_Some:
  assumes "j < 60" "store (int j) = Some wp" "fits_wire wp"
  shows "slot (mock_conn store) j = Some (on_wire wp)"
proof -
  have "get_waypoint (int j) (after_requests (mock_conn store) 0 j)
      = (Some (on_wire wp), (after_requests (mock_conn store) 0 j)
           \<lparr>sent := sent (after_requests (mock_conn store) 0 j) @ [wp_request (int j)]\<rparr>)"
    using assms by (intro mock_get_waypoint_Some [where store = store])
      (simp_all add: mock_conn_def MAX_WAYPOINTS_def)
  then show ?thesis by (simp add: slot_def)
qed

lemma mock_slot_None:
  assumes "j < 60" "store (int j) = None"
  shows "slot (mock_conn store) j = None"
proof -
  have "get_waypoint (int j) (after_requests (mock_conn store) 0 j)
      = (None, (after_requests (mock_conn store) 0 j)
           \<lparr>sent := sent (after_requests (mock_conn store) 0 j) @ [wp_request (int j)]\<rparr>)"
    using assms by (intro mock_get_waypoint_None [where store = store])
      (simp_all add: mock_conn_def MAX_WAYPOINTS_def)
  then show ?thesis by (simp add: slot_def)
qed

lemma fits_wire_wp_a: "fits_wire wp_a"
  by (simp add: fits_wire_def wp_a_def py_int_def)

lemma on_wire_wp_a: "on_wire wp_a = wp_a"
  by (simp add: on_wire_def wp_a_def py_int_def)





lemma download_mission_prefix:
  assumes "k < 60"
    and "\<forall>j<k. \<exists>wp. slot c j = Some wp \<and> (lat wp \<noteq> 0 \<or> lon wp \<noteq> 0)"
    and "case slot c k of None \<Rightarrow> True | Some wp \<Rightarrow> lat wp = 0 \<and> lon wp = 0"
  shows "download_mission m c =
           (True, m\<lparr>waypoints := map (\<lambda>j. the (slot c j)) [0..<k], mission_loaded := True\<rparr>,
            snd (get_waypoint (int k) (after_requests c 0 k)))"
proof -
  have "download_loop (py_range 0 (0 + 60)) [] c =
           ([] @ map (\<lambda>j. the (fst (get_waypoint (int (0 + j)) (after_requests c 0 j)))) [0..<k],
            snd (get_waypoint (int (0 + k)) (after_requests c 0 k)))"
  proof (rule download_loop_prefix)
    fix j assume "j < k"
    with assms(2) show "\<exists>wp. fst (get_waypoint (int (0 + j)) (after_requests c 0 j)) = Some wp
              \<and> (lat wp \<noteq> 0 \<or> lon wp \<noteq> 0)"
      by (simp add: slot_def)
  next
    from assms(3) show "case fst (get_waypoint (int (0 + k)) (after_requests c 0 k)) of
            None \<Rightarrow> True | Some wp \<Rightarrow> lat wp = 0 \<and> lon wp = 0"
      by (simp add: slot_def)
  next
    from assms(1) show "k < 60" .
  qed
  then show ?thesis
    by (simp add: download_mission_def MAX_WAYPOINTS_def slot_def)
qed

lemma mock_first_slots:
  "j < n \<Longrightarrow> j < 60 \<Longrightarrow> slot (mock_conn (first_slots n after)) j = Some wp_a"
  using mock_slot_Some [of j "first_slots n after" wp_a]
  by (simp add: first_slots_def fits_wire_wp_a on_wire_wp_a)

lemma lat_wp_a: "lat wp_a \<noteq> 0"
  by (simp add: wp_a_def)

lemma mock_first_slots_valid:
  "n \<le> 60 \<Longrightarrow>
   \<forall>j<n. \<exists>wp. slot (mock_conn (first_slots n after)) j = Some wp \<and> (lat wp \<noteq> 0 \<or> lon wp \<noteq> 0)"
  by (simp add: mock_first_slots lat_wp_a)

lemma mock_first_slots_map:
  "n \<le> 60 \<Longrightarrow>
   map (\<lambda>j. the (slot (mock_conn (first_slots n after)) j)) [0..<n] = replicate n wp_a"
  by (simp add: list_eq_iff_nth_eq mock_first_slots)


lemma mock_after_silent:
  "n < 60 \<Longrightarrow> slot (mock_conn (first_slots n None)) n = None"
  using mock_slot_None [of n "first_slots n None"]
  by (simp add: first_slots_def)



text \<open>
  A failed read does not abort the download.  With two waypoints on the device and no valid
  response for slot 2, \<open>download_mission\<close> returns \<open>True\<close> and leaves a mission of these two
  waypoints, marked loaded.
\<close>

theorem download_mission_failed_read_keeps_partial:
  "slot (mock_conn (first_slots 2 None)) 2 = None
   \<and> fst (download_mission \<lparr>waypoints = [], mission_loaded = False\<rparr> (mock_conn (first_slots 2 None)))
       = True
   \<and> fst (snd (download_mission \<lparr>waypoints = [], mission_loaded = False\<rparr>
                  (mock_conn (first_slots 2 None))))
       = \<lparr>waypoints = [wp_a, wp_a], mission_loaded = True\<rparr>"
proof -
  have n: "slot (mock_conn (first_slots 2 None)) 2 = None"
    using mock_after_silent [of 2] by simp
  have r: "replicate 2 wp_a = [wp_a, wp_a]" by (simp add: numeral_2_eq_2)
  have "download_mission \<lparr>waypoints = [], mission_loaded = False\<rparr> (mock_conn (first_slots 2 None))
      = (True, \<lparr>waypoints = [], mission_loaded = False\<rparr>
                 \<lparr>waypoints := map (\<lambda>j. the (slot (mock_conn (first_slots 2 None)) j)) [0..<2],
                   mission_loaded := True\<rparr>,
         snd (get_waypoint (int 2) (after_requests (mock_conn (first_slots 2 None)) 0 2)))"
    by (rule download_mission_prefix [OF _ mock_first_slots_valid]) (simp_all add: n)
  then show ?thesis using n by (simp add: mock_first_slots_map r)
qed

text \<open>
  Claim C1, as the code has it.  When the slots before \<open>k\<close> (\<open>k < 60\<close>) each give a waypoint
  with a latitude or longitude other than zero and the read of slot \<open>k\<close> fails
  (\<open>get_waypoint\<close> returns \<open>None\<close>), \<open>download_mission\<close> treats the failure like the sentinel:
  it stops, returns \<open>True\<close>, keeps the \<open>k\<close> waypoints read so far as the mission, and marks
  the mission loaded.
\<close>

theorem download_mission_failed_read:
  assumes "k < 60"
    and "\<forall>j<k. \<exists>wp. slot c j = Some wp \<and> (lat wp \<noteq> 0 \<or> lon wp \<noteq> 0)"
    and "slot c k = None"
  shows "download_mission m c =
           (True, m\<lparr>waypoints := map (\<lambda>j. the (slot c j)) [0..<k], mission_loaded := True\<rparr>,
            snd (get_waypoint (int k) (after_requests c 0 k)))"
proof -
  from assms(3) have "case slot c k of None \<Rightarrow> True | Some wp \<Rightarrow> lat wp = 0 \<and> lon wp = 0"
    by simp
  from download_mission_prefix [OF assms(1,2) this] show ?thesis .
qed

theorem download_mission_failed_read_witness:
  "fst (download_mission \<lparr>waypoints = [], mission_loaded = False\<rparr> (mock_conn (first_slots 1 None)))
       = True
   \<and> fst (snd (download_mission \<lparr>waypoints = [], mission_loaded = False\<rparr>
                  (mock_conn (first_slots 1 None))))
       = \<lparr>waypoints = [wp_a], mission_loaded = True\<rparr>"
proof -
  have n: "slot (mock_conn (first_slots 1 None)) 1 = None"
    using mock_after_silent [of 1] by simp
  from download_mission_failed_read
    [of 1 "mock_conn (first_slots 1 None)" "\<lparr>waypoints = [], mission_loaded = False\<rparr>",
     OF _ mock_first_slots_valid n]
  show ?thesis using mock_first_slots_map [of 1 None] by simp
qed

end
